theory Spec2Isabelle
  imports Complex_Main "HOL-Library.Multiset"
begin

section \<open>Text\<close>

text \<open>
  A JavaScript string is modelled as the list of its Unicode code points (well-formed
  text: no lone surrogates). The regular expressions of \<open>sanitizeText\<close> that carry the
  \<open>u\<close> flag work on code points; the others only look at characters of the Basic
  Multilingual Plane, so on well-formed text they act the same on code points.
\<close>

type_synonym ustring = "nat list"

definition ascii :: "string \<Rightarrow> ustring" where
  "ascii s = map of_char s"

text \<open>\<open>String.prototype.startsWith\<close>.\<close>

definition startsWith :: "ustring \<Rightarrow> ustring \<Rightarrow> bool" where
  "startsWith s p = (take (length p) s = p)"

text \<open>
  The class \<open>\s\<close> of a JavaScript regular expression, which is also what \<open>trim\<close> strips:
  the WhiteSpace and LineTerminator code points.
\<close>

definition is_space :: "nat \<Rightarrow> bool" where
  "is_space c =
     (c \<in> {0x9, 0xA, 0xB, 0xC, 0xD, 0x20, 0xA0, 0x1680, 0x2028, 0x2029, 0x202F, 0x205F,
            0x3000, 0xFEFF}
      \<or> (0x2000 \<le> c \<and> c \<le> 0x200A))"

text \<open>The dot of a regular expression matches every character but a line terminator.\<close>

definition is_line_terminator :: "nat \<Rightarrow> bool" where
  "is_line_terminator c = (c = 0xA \<or> c = 0xD \<or> c = 0x2028 \<or> c = 0x2029)"

section \<open>The speech controller: sanitizeText\<close>

text \<open>\<open>.replace(/[\u{lo}-\u{hi}]/gu, '')\<close>: every code point of the range is deleted.\<close>

definition remove_range :: "nat \<Rightarrow> nat \<Rightarrow> ustring \<Rightarrow> ustring" where
  "remove_range lo hi s = filter (\<lambda>c. \<not> (lo \<le> c \<and> c \<le> hi)) s"

text \<open>
  The tail \<open>(.*?)d\<close> of a pattern \<open>d(.*?)d\<close>, matched at the head of the input: the lazy
  group takes as few characters as possible, none of them a line terminator, until the
  closing delimiter \<open>d\<close> follows. The result is the group and the input after the match.
\<close>

fun lazy_until :: "ustring \<Rightarrow> ustring \<Rightarrow> (ustring \<times> ustring) option" where
  "lazy_until d [] = (if d = [] then Some ([], []) else None)"
| "lazy_until d (c # cs) =
     (if take (length d) (c # cs) = d then Some ([], drop (length d) (c # cs))
      else if is_line_terminator c then None
      else (case lazy_until d cs of
              None \<Rightarrow> None
            | Some (g, r) \<Rightarrow> Some (c # g, r)))"

lemma lazy_until_length: "lazy_until d s = Some (g, r) \<Longrightarrow> length r \<le> length s"
  by (induction s arbitrary: g) (auto split: if_splits option.splits)

text \<open>
  \<open>.replace(/d(.*?)d/g, '$1')\<close> for a delimiter \<open>d\<close>: the input is scanned from the left;
  where the pattern matches, the match is replaced by its group and the scan goes on
  after the match; elsewhere the character is kept and the scan moves one character on.
\<close>

function replace_wrapped :: "ustring \<Rightarrow> ustring \<Rightarrow> ustring" where
  "replace_wrapped d [] = []"
| "replace_wrapped d (c # cs) =
     (if d \<noteq> [] \<and> take (length d) (c # cs) = d then
        (case lazy_until d (drop (length d) (c # cs)) of
           Some (g, r) \<Rightarrow> g @ replace_wrapped d r
         | None \<Rightarrow> c # replace_wrapped d cs)
      else c # replace_wrapped d cs)"
  by pat_completeness auto
termination
proof (relation "measure (\<lambda>(d, s). length s)")
  fix d :: ustring and c cs x2 x y
  assume "d \<noteq> [] \<and> take (length d) (c # cs) = d"
    and "lazy_until d (drop (length d) (c # cs)) = Some x2" and "(x, y) = x2"
  then have "length y \<le> length (drop (length d) (c # cs))" and "0 < length d"
    using lazy_until_length[of d "drop (length d) (c # cs)" x y] by auto
  then show "((d, y), d, c # cs) \<in> measure (\<lambda>(d, s). length s)" by (cases d) auto
qed auto

text \<open>
  \<open>#{1,6}\s\<close> at the head of the input with exactly \<open>k\<close> hashes: the greedy quantifier
  tries 6, 5, ..., 1 hashes, and the character after them must be white space.
\<close>

definition heading_at :: "nat \<Rightarrow> ustring \<Rightarrow> bool" where
  "heading_at k s = (k < length s \<and> list_all (\<lambda>c. c = 0x23) (take k s) \<and> is_space (s ! k))"

text \<open>\<open>.replace(/#{1,6}\s/g, '')\<close>.\<close>

fun strip_headings :: "ustring \<Rightarrow> ustring" where
  "strip_headings [] = []"
| "strip_headings (c # cs) =
     (case find (\<lambda>k. heading_at k (c # cs)) [6, 5, 4, 3, 2, 1] of
        Some k \<Rightarrow> strip_headings (drop k cs)
      | None \<Rightarrow> c # strip_headings cs)"

text \<open>\<open>.replace(/p+/g, rep)\<close> for a character class \<open>p\<close>: every maximal run becomes \<open>rep\<close>.\<close>

function replace_runs :: "(nat \<Rightarrow> bool) \<Rightarrow> ustring \<Rightarrow> ustring \<Rightarrow> ustring" where
  "replace_runs p rep [] = []"
| "replace_runs p rep (c # cs) =
     (if p c then rep @ replace_runs p rep (dropWhile p cs) else c # replace_runs p rep cs)"
  by pat_completeness auto
termination
  by (relation "measure (\<lambda>(p, rep, s). length s)")
     (auto simp: length_dropWhile_le less_Suc_eq_le)

text \<open>\<open>String.prototype.trim\<close>.\<close>

definition trim :: "ustring \<Rightarrow> ustring" where
  "trim s = rev (dropWhile is_space (rev (dropWhile is_space s)))"

text \<open>
  \<open>sanitizeText\<close>, the chain of replacements in the order of the source: the seven emoji
  ranges, bold, italic, code, headings, newlines, white space, trim.
\<close>

definition strip_emoji :: "ustring \<Rightarrow> ustring" where
  "strip_emoji s =
     remove_range 0x1FA00 0x1FA6F (remove_range 0x1F900 0x1F9FF (remove_range 0x2700 0x27BF
       (remove_range 0x2600 0x26FF (remove_range 0x1F680 0x1F6FF (remove_range 0x1F300 0x1F5FF
         (remove_range 0x1F600 0x1F64F s))))))"

definition strip_markdown :: "ustring \<Rightarrow> ustring" where
  "strip_markdown s =
     strip_headings (replace_wrapped [0x60] (replace_wrapped [0x2A]
       (replace_wrapped [0x2A, 0x2A] s)))"

definition clean_whitespace :: "ustring \<Rightarrow> ustring" where
  "clean_whitespace s =
     trim (replace_runs is_space [0x20] (replace_runs (\<lambda>c. c = 0xA) [0x2E, 0x20] s))"

definition sanitizeText :: "ustring \<Rightarrow> ustring" where
  "sanitizeText text = clean_whitespace (strip_markdown (strip_emoji text))"

text \<open>The code points the source names as emoji, and the markdown marker characters.\<close>

definition is_emoji :: "nat \<Rightarrow> bool" where
  "is_emoji c =
     ((0x1F600 \<le> c \<and> c \<le> 0x1F64F) \<or> (0x1F300 \<le> c \<and> c \<le> 0x1F5FF)
      \<or> (0x1F680 \<le> c \<and> c \<le> 0x1F6FF) \<or> (0x2600 \<le> c \<and> c \<le> 0x26FF)
      \<or> (0x2700 \<le> c \<and> c \<le> 0x27BF) \<or> (0x1F900 \<le> c \<and> c \<le> 0x1F9FF)
      \<or> (0x1FA00 \<le> c \<and> c \<le> 0x1FA6F))"

definition is_marker :: "nat \<Rightarrow> bool" where
  "is_marker c = (c = 0x2A \<or> c = 0x60 \<or> c = 0x23)"

section \<open>Voices\<close>

text \<open>
  A \<open>SpeechSynthesisVoice\<close> of the platform; the code reads only its name and its
  language tag.
\<close>

record voice =
  name :: ustring
  lang :: ustring

text \<open>
  \<open>getBestVoice\<close>. The list it searches is the cached \<open>availableVoices\<close> when that is not
  empty, and what \<open>speechSynthesis.getVoices()\<close> returns at the call otherwise.
\<close>

definition currentVoices :: "voice list \<Rightarrow> voice list \<Rightarrow> voice list" where
  "currentVoices availableVoices platformVoices =
     (if length availableVoices > 0 then availableVoices else platformVoices)"

definition getBestVoice :: "voice list \<Rightarrow> voice list \<Rightarrow> voice option" where
  "getBestVoice availableVoices platformVoices =
     (let voices = currentVoices availableVoices platformVoices in
      if length voices = 0 then None
      else case find (\<lambda>v. lang v = ascii ''hi-IN'') voices of
        Some hindiVoice \<Rightarrow> Some hindiVoice
      | None \<Rightarrow>
          (case find (\<lambda>v. lang v = ascii ''en-IN'') voices of
             Some indianEnglish \<Rightarrow> Some indianEnglish
           | None \<Rightarrow>
               (case find (\<lambda>v. startsWith (lang v) (ascii ''en'')) voices of
                  Some englishVoice \<Rightarrow> Some englishVoice
                | None \<Rightarrow> (case voices of [] \<Rightarrow> None | v # _ \<Rightarrow> Some v))))"

text \<open>
  The utterance that \<open>speak\<close> builds from the sanitized text, the voice found and the
  options: a voice binds itself and its language tag, no voice leaves the utterance
  unbound with the tag \<open>hi-IN\<close>; rate, pitch and volume are clamped. The three numbers
  are rationals here (the clamping only compares them).
\<close>

record utterance =
  utt_text :: ustring
  utt_voice :: "voice option"
  utt_lang :: ustring
  utt_rate :: rat
  utt_pitch :: rat
  utt_volume :: rat

definition buildUtterance :: "ustring \<Rightarrow> voice option \<Rightarrow> rat \<Rightarrow> rat \<Rightarrow> rat \<Rightarrow> utterance" where
  "buildUtterance cleanText v rate pitch volume =
     \<lparr>utt_text = cleanText,
      utt_voice = v,
      utt_lang = (case v of Some w \<Rightarrow> lang w | None \<Rightarrow> ascii ''hi-IN''),
      utt_rate = max (1 / 10) (min 10 rate),
      utt_pitch = max 0 (min 2 pitch),
      utt_volume = max 0 (min 1 volume)\<rparr>"

section \<open>The voice picker: getVoiceLabel\<close>






section \<open>The expiry widget\<close>

subsection \<open>Numbers and dates of the platform\<close>

text \<open>
  A JavaScript number that is an integer or \<open>NaN\<close>. The time value of a \<open>Date\<close> is such a
  number (milliseconds since the epoch, \<open>NaN\<close> for an invalid date), and so is
  \<open>daysLeft\<close>: the quotient of a difference of time values by the milliseconds of a day
  is far from the precision limit of a double, so its \<open>Math.ceil\<close> is the exact ceiling.
\<close>

datatype number = NaN | Num int

fun num_lt :: "number \<Rightarrow> number \<Rightarrow> bool" where
  "num_lt (Num a) (Num b) = (a < b)"
| "num_lt _ _ = False"

fun num_le :: "number \<Rightarrow> number \<Rightarrow> bool" where
  "num_le (Num a) (Num b) = (a \<le> b)"
| "num_le _ _ = False"

fun num_sub :: "number \<Rightarrow> number \<Rightarrow> number" where
  "num_sub (Num a) (Num b) = Num (a - b)"
| "num_sub _ _ = NaN"

definition msPerDay :: int where
  "msPerDay = 1000 * 60 * 60 * 24"

text \<open>\<open>Math.ceil(x / (1000 * 60 * 60 * 24))\<close>.\<close>

fun ceil_days :: "number \<Rightarrow> number" where
  "ceil_days (Num a) = Num (- ((- a) div msPerDay))"
| "ceil_days NaN = NaN"

text \<open>
  What the widget takes from the platform: the calendar, as the day number of the first
  day of the month a day lies in; the zone, as the offset \<open>LocalTZA(t, isUTC)\<close> of local
  time from UTC at a time value \<open>t\<close>, read as UTC or as local time; and the parser of
  \<open>new Date(string)\<close>, which gives the time value (\<open>NaN\<close> for text that is no date).
\<close>

record platform =
  monthStart :: "int \<Rightarrow> int"
  localTZA :: "int \<Rightarrow> bool \<Rightarrow> int"
  parseDate :: "ustring \<Rightarrow> number"

definition Day :: "int \<Rightarrow> int" where
  "Day t = t div msPerDay"

definition TimeWithinDay :: "int \<Rightarrow> int" where
  "TimeWithinDay t = t mod msPerDay"

definition LocalTime :: "platform \<Rightarrow> int \<Rightarrow> int" where
  "LocalTime env t = t + localTZA env t True"

definition UTC :: "platform \<Rightarrow> int \<Rightarrow> int" where
  "UTC env t = t - localTZA env t False"

text \<open>The range of a time value: 100 000 000 days on either side of the epoch.\<close>

definition maxTime :: int where
  "maxTime = 8640000000000000"

definition TimeClip :: "int \<Rightarrow> number" where
  "TimeClip t = (if \<bar>t\<bar> > maxTime then NaN else Num t)"

text \<open>\<open>Date.prototype.getDate\<close>: the day of the month in local time, from 1.\<close>

definition getDate :: "platform \<Rightarrow> int \<Rightarrow> int" where
  "getDate env t = (let lt = LocalTime env t in Day lt - monthStart env (Day lt) + 1)"

text \<open>
  \<open>Date.prototype.setDate\<close> on a valid date: in local time the day of the month is
  replaced, month and time of day are kept, and a day past the end of the month runs on
  into the next months; the result is taken back to UTC and clipped, so that a date out
  of range is the invalid date.
\<close>

definition setDate :: "platform \<Rightarrow> int \<Rightarrow> int \<Rightarrow> number" where
  "setDate env t dt =
     (let lt = LocalTime env t
      in TimeClip (UTC env ((monthStart env (Day lt) + dt - 1) * msPerDay + TimeWithinDay lt)))"

text \<open>\<open>new Date(v)\<close> for a string or \<open>null\<close>: \<open>null\<close> converts to the number 0.\<close>

definition newDate :: "platform \<Rightarrow> ustring option \<Rightarrow> number" where
  "newDate env v = (case v of None \<Rightarrow> Num 0 | Some s \<Rightarrow> parseDate env s)"

subsection \<open>Students and subscriptions\<close>

datatype plan = Basic | Pro

record subscription =
  plan :: plan
  tts_used :: int
  tts_limit :: int
  start_date :: ustring
  end_date :: "ustring option"
  is_active :: bool

record student =
  student_id :: ustring
  full_name :: ustring
  student_class :: ustring
  photo_url :: "ustring option"
  subscriptions :: "subscription list"

text \<open>An entry of the derived list: the student's own fields, \<open>daysLeft\<close> and \<open>endDate\<close>.\<close>

record expiring = student +
  daysLeft :: number
  endDate :: number

datatype error = TypeError

subsection \<open>expiringStudents\<close>

text \<open>The callback of \<open>filter\<close>.\<close>

definition isExpiring :: "platform \<Rightarrow> int \<Rightarrow> number \<Rightarrow> student \<Rightarrow> bool" where
  "isExpiring env now thresholdDate st =
     (case subscriptions st of
        [] \<Rightarrow> False
      | subscription # _ \<Rightarrow>
          if plan subscription \<noteq> Pro \<or> end_date subscription = None
             \<or> end_date subscription = Some []
          then False
          else (let endDate = newDate env (end_date subscription)
                in num_lt (Num now) endDate \<and> num_le endDate thresholdDate))"

text \<open>
  The callback of \<open>map\<close>. Reading \<open>end_date\<close> of a missing first subscription throws a
  TypeError.
\<close>

definition toExpiring :: "platform \<Rightarrow> int \<Rightarrow> student \<Rightarrow> error + expiring" where
  "toExpiring env now st =
     (case subscriptions st of
        [] \<Rightarrow> Inl TypeError
      | subscription # _ \<Rightarrow>
          (let endDate = newDate env (end_date subscription);
               daysLeft = ceil_days (num_sub endDate (Num now))
           in Inr \<lparr>student_id = student_id st, full_name = full_name st,
                   student_class = student_class st, photo_url = photo_url st,
                   subscriptions = subscriptions st,
                   daysLeft = daysLeft, endDate = endDate\<rparr>))"

text \<open>\<open>Array.prototype.map\<close> with a callback that may throw: the first throw ends it.\<close>

fun map_result :: "('a \<Rightarrow> error + 'b) \<Rightarrow> 'a list \<Rightarrow> error + 'b list" where
  "map_result f [] = Inr []"
| "map_result f (x # xs) =
     (case f x of
        Inl e \<Rightarrow> Inl e
      | Inr y \<Rightarrow> (case map_result f xs of Inl e \<Rightarrow> Inl e | Inr ys \<Rightarrow> Inr (y # ys)))"

text \<open>
  \<open>Array.prototype.sort\<close> with the comparator \<open>(a, b) => a.daysLeft - b.daysLeft\<close>. The sort
  is stable, and a comparator result \<open>NaN\<close> counts as 0; for a list in which no key is
  \<open>NaN\<close> every stable sort returns what this insertion sort returns.
\<close>

definition compareDaysLeft :: "expiring \<Rightarrow> expiring \<Rightarrow> number" where
  "compareDaysLeft a b = num_sub (daysLeft a) (daysLeft b)"

definition comes_first :: "('a \<Rightarrow> 'a \<Rightarrow> number) \<Rightarrow> 'a \<Rightarrow> 'a \<Rightarrow> bool" where
  "comes_first cmp a b = (case cmp a b of NaN \<Rightarrow> True | Num v \<Rightarrow> v \<le> 0)"

fun insert_by :: "('a \<Rightarrow> 'a \<Rightarrow> number) \<Rightarrow> 'a \<Rightarrow> 'a list \<Rightarrow> 'a list" where
  "insert_by cmp x [] = [x]"
| "insert_by cmp x (y # ys) =
     (if comes_first cmp x y then x # y # ys else y # insert_by cmp x ys)"

definition sort_by :: "('a \<Rightarrow> 'a \<Rightarrow> number) \<Rightarrow> 'a list \<Rightarrow> 'a list" where
  "sort_by cmp xs = foldr (insert_by cmp) xs []"

text \<open>
  The memoised computation of the widget. \<open>now\<close> and \<open>now2\<close> are the two readings of the
  clock, \<open>new Date()\<close> for \<open>now\<close> and \<open>new Date()\<close> for \<open>thresholdDate\<close>; the threshold
  is a whole number of days (\<open>setDate\<close> drops the fraction of its argument).
\<close>

definition expiringStudents ::
    "platform \<Rightarrow> int \<Rightarrow> int \<Rightarrow> int \<Rightarrow> student list \<Rightarrow> error + expiring list" where
  "expiringStudents env now now2 daysThreshold students =
     (let thresholdDate = setDate env now2 (getDate env now + daysThreshold)
      in case map_result (toExpiring env now)
                (filter (isExpiring env now thresholdDate) students) of
           Inl e \<Rightarrow> Inl e
         | Inr es \<Rightarrow> Inr (sort_by compareDaysLeft es))"

subsection \<open>Urgency\<close>

datatype variant = Destructive | Secondary | Outline

record badge =
  badge_text :: ustring
  badge_variant :: variant

text \<open>The decimal digits of a natural number, and a number as a template string prints it.\<close>

function digits :: "nat \<Rightarrow> ustring" where
  "digits n = (if n < 10 then [0x30 + n] else digits (n div 10) @ [0x30 + n mod 10])"
  by pat_completeness auto
termination
  by (relation "measure (\<lambda>n. n)") auto

declare digits.simps [simp del]

fun show_number :: "number \<Rightarrow> ustring" where
  "show_number NaN = ascii ''NaN''"
| "show_number (Num i) = (if i < 0 then 0x2D # digits (nat (- i)) else digits (nat i))"

definition getUrgencyBadge :: "number \<Rightarrow> badge" where
  "getUrgencyBadge d =
     (if num_le d (Num 1) then \<lparr>badge_text = ascii ''Tomorrow!'', badge_variant = Destructive\<rparr>
      else if num_le d (Num 3)
        then \<lparr>badge_text = show_number d @ ascii '' days'', badge_variant = Secondary\<rparr>
      else \<lparr>badge_text = show_number d @ ascii '' days'', badge_variant = Outline\<rparr>)"

section \<open>The speech controller: speak and stop\<close>

text \<open>
  The hook runs on the event loop: a call of \<open>speak\<close> or \<open>stop\<close>, the timeout that \<open>speak\<close>
  sets, the utterance's \<open>onstart\<close>, \<open>onend\<close> and \<open>onerror\<close> handlers and the callback of
  the keep-alive interval each run to completion, one after the other. The session is
  the state they share; an event is one such run, with what the platform decides in it.
\<close>

record TTSOptions =
  opt_text :: ustring
  opt_lang :: "ustring option"
  opt_rate :: "rat option"
  opt_pitch :: "rat option"
  opt_volume :: "rat option"

datatype promise_state = Pending | Resolved | Rejected

text \<open>\<open>resolve()\<close> settles a pending promise and does nothing to a settled one.\<close>

definition resolve :: "promise_state \<Rightarrow> promise_state" where
  "resolve p = (if p = Pending then Resolved else p)"

text \<open>
  Where a call of \<open>speak\<close> stands: its timeout is set and has not run (\<open>Scheduled\<close>); its
  utterance is with the engine and carries the handlers (\<open>Live\<close>); or it has returned
  without an utterance, by an early exit or through the \<open>catch\<close> (\<open>Finished\<close>).
\<close>

datatype phase = Scheduled | Live | Finished

record call =
  options :: TTSOptions
  capturedVoices :: "voice list"
  cleanText :: ustring
  promise :: promise_state
  phase :: phase
  call_utterance :: "utterance option"
  resumeInterval :: bool
  pauseResumes :: nat

record session =
  isSupported :: bool
  isSpeaking :: bool
  availableVoices :: "voice list"
  utteranceRef :: "nat option"
  calls :: "call list"
  cancels :: nat

text \<open>
  Where the platform throws inside the \<open>try\<close> block of the timeout: nowhere, in the
  constructor of the utterance, or later (a property of the utterance that refuses its
  value, or \<open>speechSynthesis.speak\<close>).
\<close>

datatype throw_point = NoThrow | ThrowAtNew | ThrowAfterNew

datatype event =
    Speak TTSOptions
  | Timeout nat throw_point "voice list"
  | OnStart nat
  | OnEnd nat
  | OnError nat
  | Tick nat bool
  | Stop
  | VoicesChanged "voice list"

text \<open>The state after the mount effect: the platform has speech synthesis or not.\<close>

definition mount :: "bool \<Rightarrow> voice list \<Rightarrow> session" where
  "mount supported voices =
     \<lparr>isSupported = supported, isSpeaking = False,
      availableVoices = (if supported \<and> length voices > 0 then voices else []),
      utteranceRef = None, calls = [], cancels = 0\<rparr>"

definition new_call ::
    "TTSOptions \<Rightarrow> voice list \<Rightarrow> ustring \<Rightarrow> promise_state \<Rightarrow> phase \<Rightarrow> call" where
  "new_call opts voices clean p ph =
     \<lparr>options = opts, capturedVoices = voices, cleanText = clean, promise = p, phase = ph,
      call_utterance = None, resumeInterval = False, pauseResumes = 0\<rparr>"

text \<open>
  The body of \<open>speak\<close> up to \<open>setTimeout\<close>: the executor of the promise. The new call takes
  the next index of \<open>calls\<close>.
\<close>

definition speak :: "TTSOptions \<Rightarrow> session \<Rightarrow> session" where
  "speak opts s =
     (if \<not> isSupported s
      then s\<lparr>calls := calls s @ [new_call opts (availableVoices s) [] (resolve Pending) Finished]\<rparr>
      else (let clean = sanitizeText (opt_text opts) in
            if clean = []
            then s\<lparr>calls := calls s @ [new_call opts (availableVoices s) clean (resolve Pending) Finished]\<rparr>
            else s\<lparr>cancels := cancels s + 1,
                   calls := calls s @ [new_call opts (availableVoices s) clean Pending Scheduled]\<rparr>))"

definition option_or :: "'a option \<Rightarrow> 'a \<Rightarrow> 'a" where
  "option_or v d = (case v of None \<Rightarrow> d | Some x \<Rightarrow> x)"

text \<open>
  The callback of \<open>setTimeout\<close> for the call \<open>i\<close>: the \<open>try\<close> block and its \<open>catch\<close>.
  The \<open>getBestVoice\<close> it calls is the one \<open>speak\<close> closed over, which searches the
  \<open>availableVoices\<close> of the render of the call (\<open>capturedVoices\<close>), not the list the session
  holds when the timeout runs. \<open>platformVoices\<close> is what \<open>getVoices()\<close> returns if
  \<open>getBestVoice\<close> asks.
\<close>

definition timeout_callback :: "nat \<Rightarrow> throw_point \<Rightarrow> voice list \<Rightarrow> session \<Rightarrow> session" where
  "timeout_callback i tp platformVoices s =
     (let c = calls s ! i in
      case tp of
        ThrowAtNew \<Rightarrow>
          s\<lparr>isSpeaking := False,
            calls := (calls s)[i := c\<lparr>promise := resolve (promise c), phase := Finished\<rparr>]\<rparr>
      | ThrowAfterNew \<Rightarrow>
          s\<lparr>utteranceRef := Some i, isSpeaking := False,
            calls := (calls s)[i := c\<lparr>promise := resolve (promise c), phase := Finished\<rparr>]\<rparr>
      | NoThrow \<Rightarrow>
          (let u = buildUtterance (cleanText c)
                     (getBestVoice (capturedVoices c) platformVoices)
                     (option_or (opt_rate (options c)) (9 / 10))
                     (option_or (opt_pitch (options c)) 1)
                     (option_or (opt_volume (options c)) 1)
           in s\<lparr>utteranceRef := Some i, isSpeaking := True,
                 calls := (calls s)[i := c\<lparr>call_utterance := Some u, phase := Live,
                                           resumeInterval := True\<rparr>]\<rparr>))"

text \<open>
  The \<open>onend\<close> and \<open>onerror\<close> handlers of the call \<open>i\<close>, as assigned last in the timeout
  callback: the first pair, which does not clear the interval, is replaced before the
  callback returns, so no event reaches it. Both handlers do the same.
\<close>

definition on_end :: "nat \<Rightarrow> session \<Rightarrow> session" where
  "on_end i s =
     (let c = calls s ! i in
      s\<lparr>isSpeaking := False, utteranceRef := None,
        calls := (calls s)[i := c\<lparr>resumeInterval := False, promise := resolve (promise c)\<rparr>]\<rparr>)"

definition on_error :: "nat \<Rightarrow> session \<Rightarrow> session" where
  "on_error i s =
     (let c = calls s ! i in
      s\<lparr>isSpeaking := False, utteranceRef := None,
        calls := (calls s)[i := c\<lparr>resumeInterval := False, promise := resolve (promise c)\<rparr>]\<rparr>)"

text \<open>
  The callback of the keep-alive interval of the call \<open>i\<close>; \<open>speaking\<close> is what
  \<open>speechSynthesis.speaking\<close> reads. One \<open>pause()\<close> and \<open>resume()\<close> pair is counted in
  \<open>pauseResumes\<close>.
\<close>

definition interval_callback :: "nat \<Rightarrow> bool \<Rightarrow> session \<Rightarrow> session" where
  "interval_callback i speaking s =
     (let c = calls s ! i in
      if \<not> speaking
      then s\<lparr>calls := (calls s)[i := c\<lparr>resumeInterval := False\<rparr>]\<rparr>
      else s\<lparr>calls := (calls s)[i := c\<lparr>pauseResumes := pauseResumes c + 1\<rparr>]\<rparr>)"

definition stop :: "session \<Rightarrow> session" where
  "stop s = s\<lparr>cancels := cancels s + 1, utteranceRef := None, isSpeaking := False\<rparr>"

definition loadVoices :: "voice list \<Rightarrow> session \<Rightarrow> session" where
  "loadVoices voices s = (if length voices > 0 then s\<lparr>availableVoices := voices\<rparr> else s)"

text \<open>
  One event. A callback runs only where the code has registered it: the timeout once,
  for a scheduled call; the handlers of an utterance once it is with the engine; the
  interval while it is not cleared. Anything else cannot happen and changes nothing.
\<close>

fun step :: "event \<Rightarrow> session \<Rightarrow> session" where
  "step (Speak opts) s = speak opts s"
| "step (Timeout i tp pv) s =
     (if i < length (calls s) \<and> phase (calls s ! i) = Scheduled
      then timeout_callback i tp pv s else s)"
| "step (OnStart i) s =
     (if i < length (calls s) \<and> phase (calls s ! i) = Live
      then s\<lparr>isSpeaking := True\<rparr> else s)"
| "step (OnEnd i) s =
     (if i < length (calls s) \<and> phase (calls s ! i) = Live then on_end i s else s)"
| "step (OnError i) s =
     (if i < length (calls s) \<and> phase (calls s ! i) = Live then on_error i s else s)"
| "step (Tick i speaking) s =
     (if i < length (calls s) \<and> resumeInterval (calls s ! i)
      then interval_callback i speaking s else s)"
| "step Stop s = stop s"
| "step (VoicesChanged voices) s = loadVoices voices s"

fun run :: "event list \<Rightarrow> session \<Rightarrow> session" where
  "run [] s = s"
| "run (e # es) s = run es (step e s)"

text \<open>The state of the promise of the call \<open>i\<close>; a call not made yet has no settled promise.\<close>

definition promise_at :: "session \<Rightarrow> nat \<Rightarrow> promise_state" where
  "promise_at s i = (if i < length (calls s) then promise (calls s ! i) else Pending)"

text \<open>The event \<open>e\<close>, run in the session \<open>s\<close>, resolves the promise of the call \<open>i\<close>.\<close>

definition resolves_at :: "event \<Rightarrow> session \<Rightarrow> nat \<Rightarrow> bool" where
  "resolves_at e s i = (promise_at s i = Pending \<and> promise_at (step e s) i = Resolved)"

section \<open>Example data\<close>

text \<open>The voices of the examples of the specification.\<close>

definition v_enUS :: voice where
  "v_enUS = \<lparr>name = ascii ''Samantha'', lang = ascii ''en-US''\<rparr>"

definition v_enIN :: voice where
  "v_enIN = \<lparr>name = ascii ''Rishi'', lang = ascii ''en-IN''\<rparr>"

definition v_hiIN :: voice where
  "v_hiIN = \<lparr>name = ascii ''Lekha'', lang = ascii ''hi-IN''\<rparr>"

definition v_enGB :: voice where
  "v_enGB = \<lparr>name = ascii ''Daniel'', lang = ascii ''en-GB''\<rparr>"

definition v_frCA :: voice where
  "v_frCA = \<lparr>name = ascii ''Amelie'', lang = ascii ''fr-CA''\<rparr>"

text \<open>Options of a call of \<open>speak\<close> with every optional field left out.\<close>

definition demo_options :: TTSOptions where
  "demo_options = \<lparr>opt_text = ascii ''Namaste'', opt_lang = None, opt_rate = None,
                    opt_pitch = None, opt_volume = None\<rparr>"

section \<open>The words of the specification\<close>


text \<open>The student an entry of the derived list was made from: the entry without its two
  added fields.\<close>

definition student_of :: "expiring \<Rightarrow> student" where
  "student_of e = student.truncate e"

text \<open>
  The filter rule as the specification words it: the student has a subscription (the
  first of the array), its plan is pro, its end date is set (a text that is not empty and
  that the platform reads as a date), and the end date is strictly after now and at or
  before now plus the threshold in days.
\<close>

definition first_subscription :: "student \<Rightarrow> subscription option" where
  "first_subscription st = (case subscriptions st of [] \<Rightarrow> None | sub # _ \<Rightarrow> Some sub)"

definition has_pro_plan :: "student \<Rightarrow> bool" where
  "has_pro_plan st = (case first_subscription st of None \<Rightarrow> False | Some sub \<Rightarrow> plan sub = Pro)"

definition end_date_set :: "platform \<Rightarrow> student \<Rightarrow> int option" where
  "end_date_set env st =
     (case first_subscription st of
        None \<Rightarrow> None
      | Some sub \<Rightarrow>
          (case end_date sub of
             None \<Rightarrow> None
           | Some s \<Rightarrow>
               if s = [] then None
               else (case parseDate env s of NaN \<Rightarrow> None | Num t \<Rightarrow> Some t)))"

definition qualifies :: "platform \<Rightarrow> int \<Rightarrow> int \<Rightarrow> student \<Rightarrow> bool" where
  "qualifies env now daysThreshold st =
     (has_pro_plan st
      \<and> (case end_date_set env st of
            None \<Rightarrow> False
          | Some t \<Rightarrow> now < t \<and> t \<le> now + daysThreshold * msPerDay))"



text \<open>Two students agree on their identity fields and on their first subscription.\<close>

definition same_upto_first :: "student \<Rightarrow> student \<Rightarrow> bool" where
  "same_upto_first a b =
     (student_id a = student_id b \<and> full_name a = full_name b
      \<and> student_class a = student_class b \<and> photo_url a = photo_url b
      \<and> first_subscription a = first_subscription b)"

text \<open>Two entries agree on all but the subscriptions after the first.\<close>

definition same_entry :: "expiring \<Rightarrow> expiring \<Rightarrow> bool" where
  "same_entry e f =
     (same_upto_first (student_of e) (student_of f)
      \<and> daysLeft e = daysLeft f \<and> endDate e = endDate f)"

text \<open>The student \<open>st\<close> passed the filter and the callback of \<open>map\<close> made the entry \<open>e\<close> of it.\<close>

definition passed :: "platform \<Rightarrow> int \<Rightarrow> number \<Rightarrow> student \<Rightarrow> expiring \<Rightarrow> bool" where
  "passed env now thr st e = (isExpiring env now thr st \<and> toExpiring env now st = Inr e)"

section \<open>A calendar and example students\<close>

text \<open>
  The proleptic Gregorian calendar in UTC, for the examples: the day of the month of a
  day number (days since 1 January 1970), and from it the first day of the month.
\<close>

definition day_of_month :: "int \<Rightarrow> int" where
  "day_of_month day =
     (let z = day + 719468;
          era = z div 146097;
          doe = z - era * 146097;
          yoe = (doe - doe div 1460 + doe div 36524 - doe div 146096) div 365;
          doy = doe - (365 * yoe + yoe div 4 - yoe div 100);
          mp = (5 * doy + 2) div 153
      in doy - (153 * mp + 2) div 5 + 1)"

definition gregorian_monthStart :: "int \<Rightarrow> int" where
  "gregorian_monthStart day = day - (day_of_month day - 1)"

text \<open>A parser that knows the dates of a table, and nothing else.\<close>

definition parse_table :: "(ustring \<times> int) list \<Rightarrow> ustring \<Rightarrow> number" where
  "parse_table tab s = (case map_of tab s of None \<Rightarrow> NaN | Some t \<Rightarrow> Num t)"

text \<open>
  The platform of the examples, in UTC: the end dates half a day, two, five and ten days after
  \<open>now\<close>, and one a day before it.
\<close>

definition demo_platform :: "int \<Rightarrow> platform" where
  "demo_platform now =
     \<lparr>monthStart = gregorian_monthStart,
      localTZA = (\<lambda>t isUTC. 0),
      parseDate = parse_table
        [(ascii ''half'', now + 43200000), (ascii ''two'', now + 2 * 86400000),
         (ascii ''five'', now + 5 * 86400000), (ascii ''ten'', now + 10 * 86400000),
         (ascii ''past'', now - 86400000)]\<rparr>"

definition demo_subscription :: "plan \<Rightarrow> ustring option \<Rightarrow> subscription" where
  "demo_subscription p e =
     \<lparr>plan = p, tts_used = 0, tts_limit = 100, start_date = ascii ''start'',
      end_date = e, is_active = True\<rparr>"

definition demo_student :: "string \<Rightarrow> subscription list \<Rightarrow> student" where
  "demo_student n subs =
     \<lparr>student_id = ascii n, full_name = ascii n, student_class = ascii ''10'',
      photo_url = None, subscriptions = subs\<rparr>"

definition demo_entry :: "string \<Rightarrow> subscription list \<Rightarrow> int \<Rightarrow> int \<Rightarrow> expiring" where
  "demo_entry n subs days t =
     \<lparr>student_id = ascii n, full_name = ascii n, student_class = ascii ''10'',
      photo_url = None, subscriptions = subs, daysLeft = Num days, endDate = Num t\<rparr>"

text \<open>Noon of 31 January 2024, UTC.\<close>

definition demo_now :: int where
  "demo_now = 1706702400000"




text \<open>
  Five students: pro plans ending in five days, in ten days and in half a day, a basic
  plan ending in half a day, and a pro plan ending in two days.
\<close>

definition demo_students :: "student list" where
  "demo_students =
     [demo_student ''A'' [demo_subscription Pro (Some (ascii ''five''))],
      demo_student ''B'' [demo_subscription Pro (Some (ascii ''ten''))],
      demo_student ''C'' [demo_subscription Pro (Some (ascii ''half''))],
      demo_student ''D'' [demo_subscription Basic (Some (ascii ''half''))],
      demo_student ''E'' [demo_subscription Pro (Some (ascii ''two''))]]"

text \<open>
  The same student with one subscription and with a second one after it; and a student
  whose first subscription has run out and whose second one would qualify.
\<close>

definition single_student :: student where
  "single_student = demo_student ''F'' [demo_subscription Pro (Some (ascii ''two''))]"

definition double_student :: student where
  "double_student =
     demo_student ''F'' [demo_subscription Pro (Some (ascii ''two'')),
                         demo_subscription Pro (Some (ascii ''five''))]"

definition lapsed_student :: student where
  "lapsed_student =
     demo_student ''G'' [demo_subscription Pro (Some (ascii ''past'')),
                         demo_subscription Pro (Some (ascii ''two''))]"

section \<open>Words for sanitized text\<close>

text \<open>No two white space characters stand side by side.\<close>

fun single_spaced :: "ustring \<Rightarrow> bool" where
  "single_spaced [] = True"
| "single_spaced [c] = True"
| "single_spaced (c # d # cs) = (\<not> (is_space c \<and> is_space d) \<and> single_spaced (d # cs))"

text \<open>
  Text as \<open>sanitizeText\<close> leaves it: no emoji of the seven ranges, no white space but the
  space character, no two spaces side by side, no space at either end.
\<close>

definition tidy :: "ustring \<Rightarrow> bool" where
  "tidy y =
     ((\<forall>c\<in>set y. \<not> is_emoji c) \<and> (\<forall>c\<in>set y. is_space c \<longrightarrow> c = 0x20)
      \<and> single_spaced y \<and> (y \<noteq> [] \<longrightarrow> \<not> is_space (hd y) \<and> \<not> is_space (last y)))"

section \<open>Words for the speech session\<close>

text \<open>The event is a call of \<open>speak\<close> that takes the early exit for empty sanitized text.\<close>

definition empty_exit :: "event \<Rightarrow> session \<Rightarrow> bool" where
  "empty_exit e s =
     (case e of
        Speak opts \<Rightarrow> isSupported s \<and> sanitizeText (opt_text opts) = []
      | _ \<Rightarrow> False)"

text \<open>Options with a text and nothing else.\<close>

definition say :: "ustring \<Rightarrow> TTSOptions" where
  "say t = \<lparr>opt_text = t, opt_lang = None, opt_rate = None, opt_pitch = None,
            opt_volume = None\<rparr>"

text \<open>No promise of the session is rejected.\<close>

definition no_rejection :: "session \<Rightarrow> bool" where
  "no_rejection s = (\<forall>c\<in>set (calls s). promise c \<noteq> Rejected)"

text \<open>
  A platform without speech synthesis has never started an utterance: the session is
  not speaking and every call has returned.
\<close>

definition idle_if_unsupported :: "session \<Rightarrow> bool" where
  "idle_if_unsupported s =
     (\<not> isSupported s \<longrightarrow> \<not> isSpeaking s \<and> (\<forall>c\<in>set (calls s). phase c = Finished))"

text \<open>
  The voices a call has kept from its render are still cached: the cache is only ever
  replaced by a list that is not empty.
\<close>

definition voices_kept :: "session \<Rightarrow> bool" where
  "voices_kept s = (\<forall>c\<in>set (calls s). capturedVoices c \<noteq> [] \<longrightarrow> availableVoices s \<noteq> [])"

text \<open>
  The keep-alive interval of the call \<open>i\<close> is cleared for good: the call is past its
  timeout, its interval is off, and its timer has issued \<open>n\<close> pause and resume pairs.
\<close>

definition interval_cleared :: "nat \<Rightarrow> nat \<Rightarrow> session \<Rightarrow> bool" where
  "interval_cleared i n s =
     (i < length (calls s) \<and> phase (calls s ! i) \<noteq> Scheduled
      \<and> \<not> resumeInterval (calls s ! i) \<and> pauseResumes (calls s ! i) = n)"

text \<open>
  A session that is speaking: \<open>speak\<close> was called with the text \<open>Hello\<close> on a platform
  with speech synthesis and no voices, its timeout has run and the engine has started.
\<close>

definition speaking_session :: session where
  "speaking_session =
     run [Speak (say (ascii ''Hello'')), Timeout 0 NoThrow [], OnStart 0] (mount True [])"

section \<open>Properties of sanitizeText\<close>

subsection \<open>Evaluation\<close>

lemmas sanitize_eval = sanitizeText_def strip_emoji_def strip_markdown_def clean_whitespace_def
  remove_range_def trim_def heading_at_def is_space_def is_line_terminator_def ascii_def

lemma sanitize_Hello: "sanitizeText (ascii ''Hello'') = ascii ''Hello''"
  by (simp add: sanitize_eval)

lemma sanitize_blank: "sanitizeText (ascii '' '') = []"
  by (simp add: sanitize_eval)

lemma sanitize_empty: "sanitizeText [] = []"
  by (simp add: sanitize_eval)

subsection \<open>The wrapped patterns\<close>

lemma lazy_until_split:
  "lazy_until d s = Some (g, r) \<Longrightarrow> s = g @ d @ r \<and> (\<forall>c\<in>set g. \<not> is_line_terminator c)"
proof (induction s arbitrary: g)
  case Nil
  then show ?case by (auto split: if_splits)
next
  case (Cons c cs)
  show ?case
  proof (cases "take (length d) (c # cs) = d")
    case True
    with Cons.prems have "g = []" "r = drop (length d) (c # cs)" by auto
    with True show ?thesis by (metis append_Nil append_take_drop_id empty_iff list.set(1))
  next
    case False
    with Cons.prems obtain g' where g': "lazy_until d cs = Some (g', r)" "g = c # g'"
      "\<not> is_line_terminator c"
      by (auto split: if_splits option.splits)
    with Cons.IH [OF g'(1)] show ?thesis by auto
  qed
qed

lemma set_replace_wrapped: "set (replace_wrapped d s) \<subseteq> set s"
proof (induction d s rule: replace_wrapped.induct)
  case (1 d)
  then show ?case by simp
next
  case (2 d c cs)
  show ?case
  proof (cases "d \<noteq> [] \<and> take (length d) (c # cs) = d")
    case True
    show ?thesis
    proof (cases "lazy_until d (drop (length d) (c # cs))")
      case None
      with True "2.IH" show ?thesis by auto
    next
      case (Some gr)
      obtain g r where gr: "gr = (g, r)" by (cases gr)
      from lazy_until_split [of d "drop (length d) (c # cs)" g r] Some gr
      have "drop (length d) (c # cs) = g @ d @ r" by simp
      then have "set g \<union> set r \<subseteq> set (c # cs)"
        by (metis Un_subset_iff set_append set_drop_subset sup.coboundedI2 sup_ge1)
      moreover have "set (replace_wrapped d r) \<subseteq> set r"
        using "2.IH"(2) [OF True Some, of g r] gr by simp
      ultimately show ?thesis using True Some gr by auto
    qed
  next
    case False
    with "2.IH" show ?thesis by auto
  qed
qed

lemma replace_wrapped_absent: "d \<noteq> [] \<Longrightarrow> hd d \<notin> set s \<Longrightarrow> replace_wrapped d s = s"
proof (induction s)
  case Nil
  then show ?case by simp
next
  case (Cons c cs)
  then have "take (length d) (c # cs) \<noteq> d"
    by (cases d) auto
  with Cons show ?case by simp
qed

lemma replace_wrapped_prefix:
  "d \<noteq> [] \<Longrightarrow> hd d \<notin> set pre \<Longrightarrow> replace_wrapped d (pre @ s) = pre @ replace_wrapped d s"
proof (induction pre)
  case Nil
  then show ?case by simp
next
  case (Cons c cs)
  then have "take (length d) (c # cs @ s) \<noteq> d"
    by (cases d) auto
  with Cons show ?case by simp
qed

lemma lazy_until_found:
  "d \<noteq> [] \<Longrightarrow> hd d \<notin> set t \<Longrightarrow> \<forall>c\<in>set t. \<not> is_line_terminator c \<Longrightarrow>
   lazy_until d (t @ d @ r) = Some (t, r)"
proof (induction t)
  case Nil
  then show ?case by (cases d) auto
next
  case (Cons c cs)
  then have "take (length d) (c # cs @ d @ r) \<noteq> d"
    by (cases d) auto
  with Cons show ?case by simp
qed

lemma replace_wrapped_wrapped:
  assumes "d \<noteq> []" "hd d \<notin> set t" "\<forall>c\<in>set t. \<not> is_line_terminator c"
  shows "replace_wrapped d (d @ t @ d @ r) = t @ replace_wrapped d r"
proof -
  from assms(1) obtain x d' where d: "d = x # d'" by (cases d) auto
  have "replace_wrapped d (x # (d' @ t @ d @ r)) = t @ replace_wrapped d r"
    using lazy_until_found [OF assms, of r] d by (subst replace_wrapped.simps) simp
  then show ?thesis by (simp add: d)
qed

subsection \<open>Headings\<close>

lemma set_strip_headings: "set (strip_headings s) \<subseteq> set s"
proof (induction s rule: strip_headings.induct)
  case 1
  then show ?case by simp
next
  case (2 c cs)
  show ?case
  proof (cases "find (\<lambda>k. heading_at k (c # cs)) [6, 5, 4, 3, 2, 1]")
    case None
    with "2.IH"(1) show ?thesis by auto
  next
    case (Some k)
    with "2.IH"(2) [OF Some] set_drop_subset [of k cs] show ?thesis by auto
  qed
qed

lemma heading_at_needs_hash: "0 < k \<Longrightarrow> heading_at k (c # cs) \<Longrightarrow> c = 0x23"
  by (cases k) (auto simp: heading_at_def)

lemma strip_headings_absent: "0x23 \<notin> set s \<Longrightarrow> strip_headings s = s"
proof (induction s)
  case Nil
  then show ?case by simp
next
  case (Cons c cs)
  then have "\<And>k. 0 < k \<Longrightarrow> \<not> heading_at k (c # cs)"
    using heading_at_needs_hash by fastforce
  then have "find (\<lambda>k. heading_at k (c # cs)) [6, 5, 4, 3, 2, 1] = None" by simp
  with Cons show ?case by simp
qed

lemma is_space_not_hash: "is_space w \<Longrightarrow> w \<noteq> 0x23"
  by (auto simp: is_space_def)

lemma heading_at_run:
  assumes "is_space w"
  shows "heading_at k (replicate n 0x23 @ w # u) \<longleftrightarrow> k = n"
proof -
  let ?s = "replicate n 0x23 @ w # u"
  show ?thesis
  proof (cases "k < n")
    case True
    then have "?s ! k = 0x23" by (simp add: nth_append)
    then have "\<not> is_space (?s ! k)" using is_space_not_hash by metis
    with True show ?thesis by (auto simp: heading_at_def)
  next
    case False
    show ?thesis
    proof (cases "k = n")
      case True
      then show ?thesis using assms by (simp add: heading_at_def nth_append list_all_iff)
    next
      case False
      with \<open>\<not> k < n\<close> obtain j where "k = n + Suc j"
        by (metis add_Suc_right less_imp_Suc_add linorder_neqE_nat)
      then have "w \<in> set (take k ?s)" by simp
      then have "\<not> list_all (\<lambda>c. c = 0x23) (take k ?s)"
        using is_space_not_hash [OF assms] by (auto simp: list_all_iff)
      with False show ?thesis unfolding heading_at_def by blast
    qed
  qed
qed

lemma strip_headings_run:
  assumes "is_space w" "1 \<le> n" "n \<le> 6"
  shows "strip_headings (replicate n 0x23 @ w # u) = strip_headings u"
proof -
  from assms(2) obtain m where n: "n = Suc m" by (cases n) auto
  have f: "find (\<lambda>k. heading_at k (replicate n 0x23 @ w # u)) [6, 5, 4, 3, 2, 1] = Some n"
    using assms(2,3) by (auto simp: heading_at_run [OF assms(1)])
  have "strip_headings (0x23 # replicate m 0x23 @ w # u) = strip_headings (drop n (replicate m 0x23 @ w # u))"
    using f by (subst strip_headings.simps) (simp add: n)
  then show ?thesis by (simp add: n)
qed

subsection \<open>Runs\<close>

lemma set_replace_runs:
  "c \<in> set (replace_runs p rep s) \<Longrightarrow> (c \<in> set s \<and> \<not> p c) \<or> c \<in> set rep"
proof (induction p rep s rule: replace_runs.induct)
  case (1 p rep)
  then show ?case by simp
next
  case (2 p rep a cs)
  then show ?case by (auto split: if_splits dest: set_dropWhileD)
qed

lemma replace_runs_absent: "\<forall>c\<in>set s. \<not> p c \<Longrightarrow> replace_runs p rep s = s"
  by (induction s) auto

lemma single_spaced_Cons:
  "single_spaced (c # xs) \<longleftrightarrow>
     xs = [] \<or> (\<not> (is_space c \<and> is_space (hd xs)) \<and> single_spaced xs)"
  by (cases xs) auto

lemma replace_runs_single_spaced:
  "single_spaced (replace_runs is_space [0x20] s)
   \<and> (s \<noteq> [] \<and> \<not> is_space (hd s) \<longrightarrow>
        replace_runs is_space [0x20] s \<noteq> [] \<and> hd (replace_runs is_space [0x20] s) = hd s)"
proof (induction "is_space" "[0x20::nat]" s rule: replace_runs.induct)
  case 1
  then show ?case by simp
next
  case (2 c cs)
  show ?case
  proof (cases "is_space c")
    case True
    let ?t = "dropWhile is_space cs"
    let ?r = "replace_runs is_space [0x20] ?t"
    have out: "replace_runs is_space [0x20] (c # cs) = 0x20 # ?r" using True by simp
    have "single_spaced (0x20 # ?r)"
    proof (cases "?t = []")
      case True
      then have "?r = []" by (simp only: replace_runs.simps)
      then show ?thesis by (simp only: single_spaced.simps)
    next
      case False
      then have "\<not> is_space (hd ?t)" by (rule hd_dropWhile)
      with False "2.hyps"(1) [OF True] have "single_spaced ?r" "?r \<noteq> []" "\<not> is_space (hd ?r)"
        by simp_all
      then show ?thesis by (simp add: single_spaced_Cons)
    qed
    with out True show ?thesis by simp
  next
    case False
    with "2.hyps"(2) [OF False] show ?thesis by (auto simp: single_spaced_Cons)
  qed
qed

lemma replace_runs_fixed:
  "\<forall>c\<in>set y. is_space c \<longrightarrow> c = 0x20 \<Longrightarrow> single_spaced y \<Longrightarrow>
   replace_runs is_space [0x20] y = y"
proof (induction y)
  case Nil
  then show ?case by simp
next
  case (Cons c cs)
  then have ih: "replace_runs is_space [0x20] cs = cs"
    by (auto simp: single_spaced_Cons)
  show ?case
  proof (cases "is_space c")
    case True
    with Cons.prems have "c = 0x20" "cs = [] \<or> \<not> is_space (hd cs)"
      by (auto simp: single_spaced_Cons)
    then have "dropWhile is_space cs = cs" by (cases cs) auto
    with True \<open>c = 0x20\<close> ih show ?thesis by simp
  next
    case False
    with ih show ?thesis by simp
  qed
qed

subsection \<open>Trimming\<close>

lemma single_spaced_append:
  "single_spaced (xs @ ys) \<Longrightarrow> single_spaced xs \<and> single_spaced ys"
proof (induction xs)
  case Nil
  then show ?case by simp
next
  case (Cons c xs)
  then show ?case by (cases xs) (auto simp: single_spaced_Cons)
qed

lemma single_spaced_dropWhile: "single_spaced s \<Longrightarrow> single_spaced (dropWhile p s)"
  using single_spaced_append [of "takeWhile p s" "dropWhile p s"] by simp

lemma rev_dropWhile_rev: "\<exists>post. s = rev (dropWhile p (rev s)) @ post"
proof -
  have "rev s = takeWhile p (rev s) @ dropWhile p (rev s)" by simp
  then have "s = rev (dropWhile p (rev s)) @ rev (takeWhile p (rev s))"
    by (metis rev_append rev_rev_ident)
  then show ?thesis by blast
qed

lemma single_spaced_trim: "single_spaced s \<Longrightarrow> single_spaced (trim s)"
proof -
  assume "single_spaced s"
  then have a: "single_spaced (dropWhile is_space s)" by (rule single_spaced_dropWhile)
  obtain post where "dropWhile is_space s = trim s @ post"
    using rev_dropWhile_rev [of "dropWhile is_space s" is_space] by (auto simp: trim_def)
  with a single_spaced_append show ?thesis by metis
qed

lemma set_trim: "set (trim s) \<subseteq> set s"
proof
  fix x assume "x \<in> set (trim s)"
  then have "x \<in> set (dropWhile is_space (rev (dropWhile is_space s)))"
    by (simp only: trim_def set_rev)
  then have "x \<in> set (rev (dropWhile is_space s))" by (rule set_dropWhileD)
  then have "x \<in> set (dropWhile is_space s)" by (simp only: set_rev)
  then show "x \<in> set s" by (rule set_dropWhileD)
qed

lemma trim_ends:
  assumes "trim s \<noteq> []"
  shows "\<not> is_space (hd (trim s)) \<and> \<not> is_space (last (trim s))"
proof -
  let ?t = "dropWhile is_space s"
  let ?u = "dropWhile is_space (rev ?t)"
  from assms have u: "?u \<noteq> []" by (simp add: trim_def)
  have t: "?t \<noteq> []"
  proof
    assume "?t = []"
    then have "?u = []" by (simp only: rev.simps dropWhile.simps)
    with u show False by (rule notE)
  qed
  have "last (trim s) = hd ?u" using u by (simp add: trim_def last_rev)
  moreover have "\<not> is_space (hd ?u)" using u hd_dropWhile by blast
  moreover have "hd (trim s) = last ?u" using u by (simp add: trim_def hd_rev)
  moreover have "last ?u = last (rev ?t)"
    using u by (metis last_appendR takeWhile_dropWhile_id)
  moreover have "last (rev ?t) = hd ?t" using t by (simp add: last_rev)
  moreover have "\<not> is_space (hd ?t)" using t hd_dropWhile by blast
  ultimately show ?thesis by simp
qed

lemma dropWhile_fixed: "xs = [] \<or> \<not> p (hd xs) \<Longrightarrow> dropWhile p xs = xs"
  by (cases xs) auto

lemma trim_fixed:
  assumes "y \<noteq> [] \<longrightarrow> \<not> is_space (hd y) \<and> \<not> is_space (last y)"
  shows "trim y = y"
proof (cases "y = []")
  case True
  then show ?thesis by (simp add: trim_def)
next
  case False
  with assms have h: "\<not> is_space (hd y)" and l: "\<not> is_space (last y)" by simp_all
  have 1: "dropWhile is_space y = y"
    by (rule dropWhile_fixed, rule disjI2, rule h)
  have "\<not> is_space (hd (rev y))" using l by (simp add: hd_rev)
  then have "dropWhile is_space (rev y) = rev y"
    by (rule dropWhile_fixed [OF disjI2])
  with 1 show ?thesis by (simp only: trim_def rev_rev_ident)
qed

subsection \<open>The shape of sanitized text\<close>

lemma strip_emoji_clean: "c \<in> set (strip_emoji x) \<Longrightarrow> \<not> is_emoji c \<and> c \<in> set x"
  by (auto simp: strip_emoji_def remove_range_def is_emoji_def)

lemma strip_emoji_fixed: "\<forall>c\<in>set y. \<not> is_emoji c \<Longrightarrow> strip_emoji y = y"
  by (simp add: strip_emoji_def remove_range_def is_emoji_def filter_id_conv)

lemma set_strip_markdown: "set (strip_markdown s) \<subseteq> set s"
  unfolding strip_markdown_def
  using set_strip_headings set_replace_wrapped by (meson subset_trans)

lemma strip_markdown_fixed: "\<forall>c\<in>set y. \<not> is_marker c \<Longrightarrow> strip_markdown y = y"
proof -
  assume "\<forall>c\<in>set y. \<not> is_marker c"
  then have "0x2A \<notin> set y" "0x60 \<notin> set y" "0x23 \<notin> set y"
    by (auto simp: is_marker_def)
  then show ?thesis
    by (simp add: strip_markdown_def replace_wrapped_absent strip_headings_absent)
qed

lemma set_clean_whitespace:
  assumes "c \<in> set (clean_whitespace s)"
  shows "(c \<in> set s \<and> \<not> is_space c) \<or> c = 0x2E \<or> c = 0x20"
proof -
  from assms have "c \<in> set (replace_runs is_space [0x20] (replace_runs (\<lambda>c. c = 0xA) [0x2E, 0x20] s))"
    using set_trim by (auto simp: clean_whitespace_def)
  from set_replace_runs [OF this]
  have "(c \<in> set (replace_runs (\<lambda>c. c = 0xA) [0x2E, 0x20] s) \<and> \<not> is_space c) \<or> c = 0x20"
    by simp
  then show ?thesis using set_replace_runs [of c "\<lambda>c. c = 0xA" "[0x2E, 0x20]" s] by auto
qed

lemma not_space_dot: "\<not> is_space 0x2E"
  by (simp add: is_space_def)

lemma clean_whitespace_tidy:
  "(\<forall>c\<in>set (clean_whitespace s). is_space c \<longrightarrow> c = 0x20)
   \<and> single_spaced (clean_whitespace s)
   \<and> (clean_whitespace s \<noteq> [] \<longrightarrow>
        \<not> is_space (hd (clean_whitespace s)) \<and> \<not> is_space (last (clean_whitespace s)))"
proof -
  have 1: "\<forall>c\<in>set (clean_whitespace s). is_space c \<longrightarrow> c = 0x20"
    using set_clean_whitespace not_space_dot by blast
  have 2: "single_spaced (clean_whitespace s)"
    unfolding clean_whitespace_def
    using replace_runs_single_spaced by (intro single_spaced_trim) blast
  have 3: "clean_whitespace s \<noteq> [] \<longrightarrow>
        \<not> is_space (hd (clean_whitespace s)) \<and> \<not> is_space (last (clean_whitespace s))"
    unfolding clean_whitespace_def using trim_ends by blast
  from 1 2 3 show ?thesis by blast
qed

lemma clean_whitespace_fixed:
  assumes "\<forall>c\<in>set y. is_space c \<longrightarrow> c = 0x20" "single_spaced y"
    "y \<noteq> [] \<longrightarrow> \<not> is_space (hd y) \<and> \<not> is_space (last y)"
  shows "clean_whitespace y = y"
proof -
  have "is_space 0xA" by (simp add: is_space_def)
  with assms(1) have "\<forall>c\<in>set y. \<not> c = 0xA" by auto
  then have "replace_runs (\<lambda>c. c = 0xA) [0x2E, 0x20] y = y" by (rule replace_runs_absent)
  then show ?thesis
    by (simp add: clean_whitespace_def replace_runs_fixed [OF assms(1,2)] trim_fixed [OF assms(3)])
qed

lemma sanitizeText_tidy: "tidy (sanitizeText x)"
proof -
  have "\<forall>c\<in>set (sanitizeText x). \<not> is_emoji c"
  proof
    fix c assume "c \<in> set (sanitizeText x)"
    then have "(c \<in> set (strip_markdown (strip_emoji x)) \<and> \<not> is_space c) \<or> c = 0x2E \<or> c = 0x20"
      unfolding sanitizeText_def by (rule set_clean_whitespace)
    moreover have "\<not> is_emoji 0x2E" "\<not> is_emoji 0x20" by (simp_all add: is_emoji_def)
    ultimately show "\<not> is_emoji c"
      using set_strip_markdown strip_emoji_clean by blast
  qed
  then show ?thesis
    using clean_whitespace_tidy [of "strip_markdown (strip_emoji x)"]
    by (simp add: tidy_def sanitizeText_def)
qed

lemma sanitizeText_fixed:
  assumes "tidy y" "\<forall>c\<in>set y. \<not> is_marker c"
  shows "sanitizeText y = y"
proof -
  from assms(1) have "strip_emoji y = y" by (simp add: tidy_def strip_emoji_fixed)
  moreover have "strip_markdown y = y" using assms(2) by (rule strip_markdown_fixed)
  moreover have "clean_whitespace y = y"
    using assms(1) by (intro clean_whitespace_fixed) (simp_all add: tidy_def)
  ultimately show ?thesis by (simp add: sanitizeText_def)
qed

lemma sanitizeText_markers:
  "\<forall>c\<in>set x. \<not> is_marker c \<Longrightarrow> \<forall>c\<in>set (sanitizeText x). \<not> is_marker c"
proof
  fix c assume a: "\<forall>c\<in>set x. \<not> is_marker c" and c: "c \<in> set (sanitizeText x)"
  from c have "(c \<in> set (strip_markdown (strip_emoji x)) \<and> \<not> is_space c) \<or> c = 0x2E \<or> c = 0x20"
    unfolding sanitizeText_def by (rule set_clean_whitespace)
  moreover have "\<not> is_marker 0x2E" "\<not> is_marker 0x20" by (simp_all add: is_marker_def)
  ultimately show "\<not> is_marker c"
    using a set_strip_markdown strip_emoji_clean by blast
qed

subsection \<open>Markers around a text\<close>

lemma strip_emoji_append: "strip_emoji (a @ b) = strip_emoji a @ strip_emoji b"
  by (simp add: strip_emoji_def remove_range_def)

lemma strip_emoji_Cons:
  "\<not> is_emoji c \<Longrightarrow> strip_emoji (c # s) = c # strip_emoji s"
  by (simp add: strip_emoji_def remove_range_def is_emoji_def)

lemma markers_not_emoji: "\<not> is_emoji 0x2A" "\<not> is_emoji 0x60" "\<not> is_emoji 0x23" "\<not> is_emoji 0x20"
  by (simp_all add: is_emoji_def)

lemma strip_emoji_keeps:
  "P \<notin> set t \<Longrightarrow> P \<notin> set (strip_emoji t)"
  "\<forall>c\<in>set t. \<not> is_line_terminator c \<Longrightarrow> \<forall>c\<in>set (strip_emoji t). \<not> is_line_terminator c"
  using strip_emoji_clean by blast+

lemma bold_lone_stars:
  assumes "0x2A \<notin> set t"
  shows "replace_wrapped [0x2A, 0x2A] (0x2A # t @ [0x2A]) = 0x2A # t @ [0x2A]"
proof -
  have tail: "replace_wrapped [0x2A, 0x2A] (u @ [0x2A]) = u @ [0x2A]" if "0x2A \<notin> set u" for u
    using that by (induction u) auto
  show ?thesis
  proof (cases t)
    case Nil
    then show ?thesis by simp
  next
    case (Cons c cs)
    with assms have "c \<noteq> 0x2A" by auto
    with tail [OF assms] Cons show ?thesis by simp
  qed
qed

lemma sanitize_bold:
  assumes "0x2A \<notin> set t" "\<forall>c\<in>set t. \<not> is_line_terminator c"
  shows "sanitizeText ([0x2A, 0x2A] @ t @ [0x2A, 0x2A]) = sanitizeText t"
proof -
  let ?t = "strip_emoji t"
  have e: "strip_emoji ([0x2A, 0x2A] @ t @ [0x2A, 0x2A]) = [0x2A, 0x2A] @ ?t @ [0x2A, 0x2A] @ []"
    by (simp add: strip_emoji_append strip_emoji_Cons markers_not_emoji)
      (simp add: strip_emoji_def remove_range_def)
  have t: "0x2A \<notin> set ?t" "\<forall>c\<in>set ?t. \<not> is_line_terminator c"
    using assms strip_emoji_keeps by blast+
  have "replace_wrapped [0x2A, 0x2A] ([0x2A, 0x2A] @ ?t @ [0x2A, 0x2A] @ []) = ?t @ replace_wrapped [0x2A, 0x2A] []"
    using t by (intro replace_wrapped_wrapped) simp_all
  moreover have "replace_wrapped [0x2A, 0x2A] ?t = ?t"
    using t(1) by (intro replace_wrapped_absent) simp_all
  ultimately show ?thesis
    by (simp only: sanitizeText_def strip_markdown_def e replace_wrapped.simps append_Nil2)
qed

lemma sanitize_italic:
  assumes "0x2A \<notin> set t" "\<forall>c\<in>set t. \<not> is_line_terminator c"
  shows "sanitizeText ([0x2A] @ t @ [0x2A]) = sanitizeText t"
proof -
  let ?t = "strip_emoji t"
  have e: "strip_emoji ([0x2A] @ t @ [0x2A]) = 0x2A # ?t @ [0x2A]"
    by (simp add: strip_emoji_append strip_emoji_Cons markers_not_emoji)
      (simp add: strip_emoji_def remove_range_def)
  have t: "0x2A \<notin> set ?t" "\<forall>c\<in>set ?t. \<not> is_line_terminator c"
    using assms strip_emoji_keeps by blast+
  have b: "replace_wrapped [0x2A, 0x2A] (0x2A # ?t @ [0x2A]) = 0x2A # ?t @ [0x2A]"
    using t(1) by (rule bold_lone_stars)
  have "replace_wrapped [0x2A] ([0x2A] @ ?t @ [0x2A] @ []) = ?t @ replace_wrapped [0x2A] []"
    using t by (intro replace_wrapped_wrapped) simp_all
  then have i: "replace_wrapped [0x2A] (0x2A # ?t @ [0x2A]) = ?t" by simp
  have "replace_wrapped [0x2A, 0x2A] ?t = ?t" "replace_wrapped [0x2A] ?t = ?t"
    using t(1) by (simp_all add: replace_wrapped_absent)
  with b i show ?thesis
    by (simp only: sanitizeText_def strip_markdown_def e)
qed

lemma sanitize_code:
  assumes "0x2A \<notin> set t" "0x60 \<notin> set t" "\<forall>c\<in>set t. \<not> is_line_terminator c"
  shows "sanitizeText ([0x60] @ t @ [0x60]) = sanitizeText t"
proof -
  let ?t = "strip_emoji t"
  have e: "strip_emoji ([0x60] @ t @ [0x60]) = 0x60 # ?t @ [0x60]"
    by (simp add: strip_emoji_append strip_emoji_Cons markers_not_emoji)
      (simp add: strip_emoji_def remove_range_def)
  have t: "0x2A \<notin> set ?t" "0x60 \<notin> set ?t" "\<forall>c\<in>set ?t. \<not> is_line_terminator c"
    using assms strip_emoji_keeps by blast+
  have b: "replace_wrapped [0x2A, 0x2A] (0x60 # ?t @ [0x60]) = 0x60 # ?t @ [0x60]"
    "replace_wrapped [0x2A] (0x60 # ?t @ [0x60]) = 0x60 # ?t @ [0x60]"
    using t(1) by (simp_all add: replace_wrapped_absent)
  have "replace_wrapped [0x60] ([0x60] @ ?t @ [0x60] @ []) = ?t @ replace_wrapped [0x60] []"
    using t by (intro replace_wrapped_wrapped) simp_all
  then have i: "replace_wrapped [0x60] (0x60 # ?t @ [0x60]) = ?t" by simp
  have "replace_wrapped [0x2A, 0x2A] ?t = ?t" "replace_wrapped [0x2A] ?t = ?t"
    "replace_wrapped [0x60] ?t = ?t"
    using t(1,2) by (simp_all add: replace_wrapped_absent)
  with b i show ?thesis
    by (simp only: sanitizeText_def strip_markdown_def e)
qed

lemma sanitize_heading:
  assumes "1 \<le> n" "n \<le> 6"
  shows "sanitizeText (replicate n 0x23 @ 0x20 # t) = sanitizeText t"
proof -
  let ?t = "strip_emoji t"
  let ?pre = "replicate n 0x23 @ [0x20]"
  have "strip_emoji (replicate n 0x23) = replicate n 0x23"
    by (rule strip_emoji_fixed) (simp add: is_emoji_def)
  then have e: "strip_emoji (replicate n 0x23 @ 0x20 # t) = ?pre @ ?t"
    by (simp add: strip_emoji_append strip_emoji_Cons markers_not_emoji)
  have p: "replace_wrapped d (?pre @ u) = ?pre @ replace_wrapped d u"
    if "d \<noteq> []" "hd d \<noteq> 0x23" "hd d \<noteq> 0x20" for d u
    using that by (intro replace_wrapped_prefix) auto
  have "strip_markdown (?pre @ ?t) = strip_headings (?pre @ replace_wrapped [0x60]
          (replace_wrapped [0x2A] (replace_wrapped [0x2A, 0x2A] ?t)))"
    by (simp add: strip_markdown_def p del: append_assoc append.simps replicate_append_same)
  also have "\<dots> = strip_markdown ?t"
    using strip_headings_run [of "0x20" n] assms
    by (simp add: strip_markdown_def is_space_def)
  finally show ?thesis by (simp add: sanitizeText_def e)
qed

subsection \<open>What sanitizeText removes\<close>

text \<open>
  C5. The sanitized text holds no code point of the seven emoji ranges and no newline; its
  only white space is the single space, never two side by side and none at either end.
  Bold, italic and code markers around a text of one line that does not hold the marker
  are stripped, and so is a heading marker of one to six hashes and a space. The text
  \<open># Hi **there**\<close> followed by a space and the grinning face sanitizes to \<open>Hi there\<close>,
  and a run of newlines becomes a full stop and a space.
\<close>

theorem sanitizeText_strips:
  "(\<forall>c\<in>set (sanitizeText x). \<not> is_emoji c)
   \<and> 0xA \<notin> set (sanitizeText x)
   \<and> tidy (sanitizeText x)
   \<and> (0x2A \<notin> set t \<and> (\<forall>c\<in>set t. \<not> is_line_terminator c) \<longrightarrow>
        sanitizeText (ascii ''**'' @ t @ ascii ''**'') = sanitizeText t
        \<and> sanitizeText (ascii ''*'' @ t @ ascii ''*'') = sanitizeText t)
   \<and> (0x2A \<notin> set t \<and> 0x60 \<notin> set t \<and> (\<forall>c\<in>set t. \<not> is_line_terminator c) \<longrightarrow>
        sanitizeText ([0x60] @ t @ [0x60]) = sanitizeText t)
   \<and> (1 \<le> n \<and> n \<le> 6 \<longrightarrow>
        sanitizeText (replicate n 0x23 @ ascii '' '' @ t) = sanitizeText t)
   \<and> sanitizeText (ascii ''# Hi **there** '' @ [0x1F600]) = ascii ''Hi there''
   \<and> sanitizeText (ascii ''one'' @ [0xA, 0xA] @ ascii ''two   three'') = ascii ''one. two three''"
proof -
  have tidy: "tidy (sanitizeText x)" by (rule sanitizeText_tidy)
  then have 1: "\<forall>c\<in>set (sanitizeText x). \<not> is_emoji c" by (simp add: tidy_def)
  have "is_space 0xA" by (simp add: is_space_def)
  with tidy have 2: "0xA \<notin> set (sanitizeText x)" by (auto simp: tidy_def)
  have 3: "0x2A \<notin> set t \<and> (\<forall>c\<in>set t. \<not> is_line_terminator c) \<longrightarrow>
        sanitizeText (ascii ''**'' @ t @ ascii ''**'') = sanitizeText t
        \<and> sanitizeText (ascii ''*'' @ t @ ascii ''*'') = sanitizeText t"
    using sanitize_bold [of t] sanitize_italic [of t] by (simp add: ascii_def)
  have 4: "0x2A \<notin> set t \<and> 0x60 \<notin> set t \<and> (\<forall>c\<in>set t. \<not> is_line_terminator c) \<longrightarrow>
        sanitizeText ([0x60] @ t @ [0x60]) = sanitizeText t"
    using sanitize_code [of t] by simp
  have 5: "1 \<le> n \<and> n \<le> 6 \<longrightarrow>
        sanitizeText (replicate n 0x23 @ ascii '' '' @ t) = sanitizeText t"
    using sanitize_heading [of n t] by (simp add: ascii_def)
  have 6: "sanitizeText (ascii ''# Hi **there** '' @ [0x1F600]) = ascii ''Hi there''"
    by (simp add: sanitize_eval)
  have 7: "sanitizeText (ascii ''one'' @ [0xA, 0xA] @ ascii ''two   three'') = ascii ''one. two three''"
    by (simp add: sanitize_eval)
  from 1 2 tidy 3 4 5 6 7 show ?thesis by blast
qed

theorem sanitizeText_strips_witness:
  "sanitizeText (ascii ''**there**'') = ascii ''there''
   \<and> sanitizeText (ascii ''*there*'') = ascii ''there''
   \<and> sanitizeText ([0x60] @ ascii ''there'' @ [0x60]) = ascii ''there''
   \<and> sanitizeText (ascii ''### there'') = ascii ''there''
   \<and> 0x1F600 \<notin> set (sanitizeText (ascii ''Hi '' @ [0x1F600]))"
proof -
  note w = sanitizeText_strips [of "ascii ''Hi '' @ [0x1F600]" "ascii ''there''" 3]
  have t: "sanitizeText (ascii ''there'') = ascii ''there''"
    by (simp add: sanitize_eval)
  have h: "0x2A \<notin> set (ascii ''there'')" "0x60 \<notin> set (ascii ''there'')"
    "\<forall>c\<in>set (ascii ''there''). \<not> is_line_terminator c"
    by (simp_all add: ascii_def is_line_terminator_def)
  have r: "replicate 3 (0x23::nat) @ ascii '' '' @ ascii ''there'' = ascii ''### there''"
    by (simp add: ascii_def numeral_3_eq_3)
  have b: "ascii ''**'' @ ascii ''there'' @ ascii ''**'' = ascii ''**there**''"
    "ascii ''*'' @ ascii ''there'' @ ascii ''*'' = ascii ''*there*''"
    by (simp_all add: ascii_def)
  have e: "is_emoji 0x1F600" by (simp add: is_emoji_def)
  from w h have "sanitizeText (ascii ''**'' @ ascii ''there'' @ ascii ''**'') = sanitizeText (ascii ''there'')"
    "sanitizeText (ascii ''*'' @ ascii ''there'' @ ascii ''*'') = sanitizeText (ascii ''there'')"
    "sanitizeText ([0x60] @ ascii ''there'' @ [0x60]) = sanitizeText (ascii ''there'')"
    by blast+
  moreover from w have "sanitizeText (replicate 3 0x23 @ ascii '' '' @ ascii ''there'') = sanitizeText (ascii ''there'')"
    by simp
  moreover from w e have "0x1F600 \<notin> set (sanitizeText (ascii ''Hi '' @ [0x1F600]))"
    by blast
  ultimately show ?thesis by (simp only: t r b) simp
qed

subsection \<open>Sanitizing twice\<close>

text \<open>
  C4, as stated, fails: an italic pair that spans a line break is kept by the first pass,
  which turns the break into a full stop and a space, and is stripped by the second.
\<close>

theorem sanitizeText_idempotent_counterexample:
  "sanitizeText (ascii ''*a'' @ [0xA] @ ascii ''b*'') = ascii ''*a. b*''
   \<and> sanitizeText (sanitizeText (ascii ''*a'' @ [0xA] @ ascii ''b*'')) = ascii ''a. b''
   \<and> sanitizeText (sanitizeText (ascii ''*a'' @ [0xA] @ ascii ''b*''))
       \<noteq> sanitizeText (ascii ''*a'' @ [0xA] @ ascii ''b*'')"
proof -
  have 1: "sanitizeText (ascii ''*a'' @ [0xA] @ ascii ''b*'') = ascii ''*a. b*''"
    by (simp add: sanitize_eval)
  have 2: "sanitizeText (ascii ''*a. b*'') = ascii ''a. b''"
    by (simp add: sanitize_eval)
  have "ascii ''a. b'' \<noteq> ascii ''*a. b*''" by (simp add: ascii_def)
  with 1 2 show ?thesis by simp
qed

text \<open>
  C4, amended. Sanitizing once more changes nothing whenever the sanitized text holds none
  of the marker characters \<open>*\<close>, backtick and \<open>#\<close>; this is so for every text that holds
  none of them.
\<close>

theorem sanitizeText_idempotent:
  "((\<forall>c\<in>set (sanitizeText x). \<not> is_marker c) \<longrightarrow>
      sanitizeText (sanitizeText x) = sanitizeText x)
   \<and> ((\<forall>c\<in>set x. \<not> is_marker c) \<longrightarrow> sanitizeText (sanitizeText x) = sanitizeText x)"
  using sanitizeText_fixed [OF sanitizeText_tidy, of x] sanitizeText_markers [of x] by blast

theorem sanitizeText_idempotent_witness:
  "sanitizeText (sanitizeText (ascii ''# Hi **there** '' @ [0x1F600]))
     = sanitizeText (ascii ''# Hi **there** '' @ [0x1F600])
   \<and> sanitizeText (sanitizeText (ascii ''  Hi   there '' @ [0xA] @ ascii ''you''))
     = sanitizeText (ascii ''  Hi   there '' @ [0xA] @ ascii ''you'')"
proof -
  have 1: "sanitizeText (ascii ''# Hi **there** '' @ [0x1F600]) = ascii ''Hi there''"
    by (simp add: sanitize_eval)
  have 2: "\<forall>c\<in>set (ascii ''Hi there''). \<not> is_marker c"
    by (simp add: ascii_def is_marker_def)
  have 3: "\<forall>c\<in>set (ascii ''  Hi   there '' @ [0xA] @ ascii ''you''). \<not> is_marker c"
    by (simp add: ascii_def is_marker_def)
  from sanitizeText_idempotent [of "ascii ''# Hi **there** '' @ [0x1F600]"] 1 2
    sanitizeText_idempotent [of "ascii ''  Hi   there '' @ [0xA] @ ascii ''you''"] 3
  show ?thesis by simp
qed

section \<open>Properties of the expiry widget\<close>

subsection \<open>Dates\<close>

text \<open>
  Set to its own day of the month plus \<open>d\<close>, a date moves by \<open>d\<close> days of 24 hours when
  the zone has the same offset at both ends, whatever the calendar.
\<close>

lemma setDate_getDate:
  assumes "localTZA env t True = z" and "localTZA env (t + z + d * msPerDay) False = z"
  shows "setDate env t (getDate env t + d) = TimeClip (t + d * msPerDay)"
proof -
  let ?lt = "t + z"
  have "(monthStart env (Day ?lt) + (Day ?lt - monthStart env (Day ?lt) + 1 + d) - 1) * msPerDay
          + TimeWithinDay ?lt = ?lt + d * msPerDay"
    by (simp add: Day_def TimeWithinDay_def algebra_simps)
  then show ?thesis
    using assms by (simp add: setDate_def getDate_def LocalTime_def UTC_def Let_def)
qed

lemma setDate_getDate_demo:
  "setDate (demo_platform n) t (getDate (demo_platform n) t + d) = TimeClip (t + d * msPerDay)"
  by (rule setDate_getDate [where z = 0]) (simp_all add: demo_platform_def)

lemma msPerDay_pos: "0 < msPerDay"
  by (simp add: msPerDay_def)


lemma ceil_days_ge_1: "0 < a \<Longrightarrow> 1 \<le> - ((- a) div msPerDay)"
proof -
  assume "0 < a"
  then have "(- a) div msPerDay < 0"
    using msPerDay_pos by (simp add: pos_imp_zdiv_neg_iff)
  then show ?thesis by simp
qed

subsection \<open>Mapping with a callback that may throw\<close>

lemma map_result_Inr_iff:
  "map_result f xs = Inr ys \<longleftrightarrow> list_all2 (\<lambda>x y. f x = Inr y) xs ys"
proof (induction xs arbitrary: ys)
  case Nil
  then show ?case by auto
next
  case (Cons x xs)
  show ?case
    by (auto simp: list_all2_Cons1 Cons.IH [symmetric] split: sum.splits)
qed

lemma map_result_total:
  "\<forall>x\<in>set xs. \<exists>y. f x = Inr y \<Longrightarrow> \<exists>ys. map_result f xs = Inr ys"
  by (induction xs) (auto split: sum.splits)

subsection \<open>The sort\<close>

lemma mset_insert_by: "mset (insert_by cmp x ys) = add_mset x (mset ys)"
  by (induction ys) auto

lemma mset_sort_by: "mset (sort_by cmp xs) = mset xs"
  by (induction xs) (auto simp: sort_by_def mset_insert_by)

lemma set_sort_by: "set (sort_by cmp xs) = set xs"
  using mset_sort_by [of cmp xs] by (metis set_mset_mset)





subsection \<open>Filter and map\<close>

lemma isExpiring_facts:
  assumes "isExpiring env now thr st"
  shows "\<exists>e t. toExpiring env now st = Inr e \<and> student_of e = st
           \<and> has_pro_plan st \<and> end_date_set env st = Some t \<and> now < t
           \<and> num_le (Num t) thr
           \<and> endDate e = Num t \<and> daysLeft e = Num (- ((- (t - now)) div msPerDay))"
proof (cases "subscriptions st")
  case Nil
  with assms show ?thesis by (simp add: isExpiring_def)
next
  case (Cons sub rest)
  with assms obtain s where s: "plan sub = Pro" "end_date sub = Some s" "s \<noteq> []"
    by (cases "end_date sub") (auto simp: isExpiring_def split: if_splits)
  with assms Cons obtain t where t: "parseDate env s = Num t" "now < t" "num_le (Num t) thr"
    by (cases "parseDate env s") (auto simp: isExpiring_def newDate_def)
  show ?thesis
    using Cons s t
    by (simp add: toExpiring_def newDate_def student_of_def student.truncate_def
        has_pro_plan_def end_date_set_def first_subscription_def)
qed

lemma isExpiring_iff_qualifies:
  "isExpiring env now (Num (now + d * msPerDay)) st \<longleftrightarrow> qualifies env now d st"
proof (cases "subscriptions st")
  case Nil
  then show ?thesis
    by (simp add: isExpiring_def qualifies_def has_pro_plan_def first_subscription_def)
next
  case (Cons sub rest)
  show ?thesis
  proof (cases "end_date sub")
    case None
    with Cons show ?thesis
      by (simp add: isExpiring_def qualifies_def has_pro_plan_def first_subscription_def
          end_date_set_def)
  next
    case (Some s)
    with Cons show ?thesis
      by (cases "parseDate env s")
         (auto simp: isExpiring_def qualifies_def has_pro_plan_def first_subscription_def
            end_date_set_def newDate_def)
  qed
qed




lemma expiringStudents_shape:
  "\<exists>fs. expiringStudents env now now2 d students = Inr (sort_by compareDaysLeft fs)
     \<and> list_all2 (passed env now (setDate env now2 (getDate env now + d)))
         (filter (isExpiring env now (setDate env now2 (getDate env now + d))) students) fs"
proof -
  let ?thr = "setDate env now2 (getDate env now + d)"
  let ?xs = "filter (isExpiring env now ?thr) students"
  have "\<forall>st\<in>set ?xs. \<exists>e. toExpiring env now st = Inr e"
    using isExpiring_facts by fastforce
  from map_result_total [OF this] obtain fs where fs: "map_result (toExpiring env now) ?xs = Inr fs"
    by blast
  then have "list_all2 (\<lambda>st e. toExpiring env now st = Inr e) ?xs fs"
    by (simp add: map_result_Inr_iff)
  then have "list_all2 (passed env now ?thr) ?xs fs"
    by (rule list.rel_mono_strong) (simp add: passed_def)
  moreover have "expiringStudents env now now2 d students = Inr (sort_by compareDaysLeft fs)"
    using fs by (simp add: expiringStudents_def Let_def)
  ultimately show ?thesis by blast
qed

lemma passed_facts:
  assumes "passed env now thr st e"
  shows "student_of e = st" and "has_pro_plan st"
    and "\<exists>t. end_date_set env st = Some t \<and> now < t \<and> num_le (Num t) thr
           \<and> endDate e = Num t \<and> daysLeft e = Num (- ((- (t - now)) div msPerDay))"
  using assms isExpiring_facts [of env now thr st] by (auto simp: passed_def)

lemma passed_map_student_of:
  "list_all2 (passed env now thr) xs fs \<Longrightarrow> map student_of fs = xs"
  by (induction rule: list_all2_induct) (auto simp: passed_facts)

lemma passed_all:
  "list_all2 (passed env now thr) xs fs \<Longrightarrow> \<forall>e\<in>set fs. passed env now thr (student_of e) e"
  by (induction rule: list_all2_induct) (auto simp: passed_facts)

text \<open>The derived list never throws.\<close>

lemma expiringStudents_total: "\<exists>es. expiringStudents env now now2 d students = Inr es"
  using expiringStudents_shape by blast

text \<open>
  The derived list holds one entry for each student that passed the filter, and every
  entry is what the callback of \<open>map\<close> made of its student.
\<close>

lemma expiringStudents_entries:
  assumes "expiringStudents env now now2 d students = Inr es"
  defines "thr \<equiv> setDate env now2 (getDate env now + d)"
  shows "mset (map student_of es) = mset (filter (isExpiring env now thr) students)"
    and "\<forall>e\<in>set es. passed env now thr (student_of e) e"
proof -
  from expiringStudents_shape [of env now now2 d students] assms obtain fs
    where es: "es = sort_by compareDaysLeft fs"
      and fs: "list_all2 (passed env now thr) (filter (isExpiring env now thr) students) fs"
    by auto
  have "mset (map student_of es) = mset (map student_of fs)"
    by (simp add: es mset_sort_by)
  then show "mset (map student_of es) = mset (filter (isExpiring env now thr) students)"
    using passed_map_student_of [OF fs] by simp
  show "\<forall>e\<in>set es. passed env now thr (student_of e) e"
    using passed_all [OF fs] by (simp add: es set_sort_by)
qed


subsection \<open>The examples of the specification\<close>

lemmas expiry_eval = expiringStudents_def isExpiring_def toExpiring_def newDate_def
  demo_platform_def parse_table_def demo_student_def demo_subscription_def demo_entry_def
  sort_by_def comes_first_def compareDaysLeft_def msPerDay_def ascii_def Let_def

lemma TimeClip_in_range: "\<bar>t\<bar> \<le> maxTime \<Longrightarrow> TimeClip t = Num t"
  by (simp add: TimeClip_def)



lemma demo_now_in_range: "\<bar>demo_now + 7 * msPerDay\<bar> \<le> maxTime"
  by (simp add: demo_now_def msPerDay_def maxTime_def)

lemmas demo_eval = setDate_getDate_demo TimeClip_in_range [OF demo_now_in_range]

subsection \<open>The filter rule, days left and the order\<close>




text \<open>
  C10. Whatever the two readings of the clock, every entry of the derived list has at
  least one day left, so that the guard \<open>daysLeft \<le> 1\<close> of the critical band, and with it
  the destructive badge, holds exactly when one day is left.
\<close>

theorem daysLeft_at_least_one:
  "\<exists>es. expiringStudents env now now2 daysThreshold students = Inr es
     \<and> (\<forall>e\<in>set es. \<exists>k. daysLeft e = Num k \<and> 1 \<le> k
          \<and> (num_le (daysLeft e) (Num 1) \<longleftrightarrow> k = 1)
          \<and> (badge_variant (getUrgencyBadge (daysLeft e)) = Destructive \<longleftrightarrow> k = 1))"
proof -
  obtain es where es: "expiringStudents env now now2 daysThreshold students = Inr es"
    using expiringStudents_total by blast
  let ?thr = "setDate env now2 (getDate env now + daysThreshold)"
  have "\<forall>e\<in>set es. \<exists>k. daysLeft e = Num k \<and> 1 \<le> k
          \<and> (num_le (daysLeft e) (Num 1) \<longleftrightarrow> k = 1)
          \<and> (badge_variant (getUrgencyBadge (daysLeft e)) = Destructive \<longleftrightarrow> k = 1)"
  proof
    fix e assume "e \<in> set es"
    with expiringStudents_entries(2) [OF es] have "passed env now ?thr (student_of e) e" by blast
    from passed_facts(3) [OF this] obtain t where
      t: "now < t" "daysLeft e = Num (- ((- (t - now)) div msPerDay))" by blast
    let ?k = "- ((- (t - now)) div msPerDay)"
    have "1 \<le> ?k" using t(1) ceil_days_ge_1 [of "t - now"] by simp
    then show "\<exists>k. daysLeft e = Num k \<and> 1 \<le> k
          \<and> (num_le (daysLeft e) (Num 1) \<longleftrightarrow> k = 1)
          \<and> (badge_variant (getUrgencyBadge (daysLeft e)) = Destructive \<longleftrightarrow> k = 1)"
      using t(2) by (auto simp: getUrgencyBadge_def)
  qed
  with es show ?thesis by blast
qed

theorem daysLeft_at_least_one_witness:
  "expiringStudents (demo_platform demo_now) demo_now demo_now 7 demo_students
     = Inr [demo_entry ''C'' [demo_subscription Pro (Some (ascii ''half''))] 1
              (demo_now + 43200000),
            demo_entry ''E'' [demo_subscription Pro (Some (ascii ''two''))] 2
              (demo_now + 2 * 86400000),
            demo_entry ''A'' [demo_subscription Pro (Some (ascii ''five''))] 5
              (demo_now + 5 * 86400000)]
   \<and> badge_variant (getUrgencyBadge (Num 1)) = Destructive
   \<and> badge_variant (getUrgencyBadge (Num 2)) \<noteq> Destructive
   \<and> badge_variant (getUrgencyBadge (Num 5)) \<noteq> Destructive"
proof -
  have ev: "expiringStudents (demo_platform demo_now) demo_now demo_now 7 demo_students
     = Inr [demo_entry ''C'' [demo_subscription Pro (Some (ascii ''half''))] 1
              (demo_now + 43200000),
            demo_entry ''E'' [demo_subscription Pro (Some (ascii ''two''))] 2
              (demo_now + 2 * 86400000),
            demo_entry ''A'' [demo_subscription Pro (Some (ascii ''five''))] 5
              (demo_now + 5 * 86400000)]"
    by (simp add: expiringStudents_def demo_eval)
       (simp add: expiry_eval demo_students_def)
  with daysLeft_at_least_one [of "demo_platform demo_now" demo_now demo_now 7 demo_students]
  show ?thesis by (simp add: demo_entry_def)
qed

subsection \<open>Only the first subscription is read\<close>

lemma first_subscription_cases:
  "first_subscription st = None \<longleftrightarrow> subscriptions st = []"
  "first_subscription st = Some sub \<longleftrightarrow> (\<exists>rest. subscriptions st = sub # rest)"
  by (auto simp: first_subscription_def split: list.splits)

lemma isExpiring_first:
  "isExpiring env now thr st =
     (case first_subscription st of
        None \<Rightarrow> False
      | Some sub \<Rightarrow>
          plan sub = Pro \<and> end_date sub \<noteq> None \<and> end_date sub \<noteq> Some []
          \<and> num_lt (Num now) (newDate env (end_date sub))
          \<and> num_le (newDate env (end_date sub)) thr)"
  by (cases "subscriptions st") (auto simp: isExpiring_def first_subscription_def Let_def)

lemma isExpiring_same: "same_upto_first a b \<Longrightarrow> isExpiring env now thr a = isExpiring env now thr b"
  by (simp add: isExpiring_first same_upto_first_def)

lemma filter_rel:
  "list_all2 R xs ys \<Longrightarrow> (\<And>x y. R x y \<Longrightarrow> P x = P y) \<Longrightarrow>
   list_all2 R (filter P xs) (filter P ys)"
  by (induction rule: list_all2_induct) auto

lemma toExpiring_same:
  assumes "same_upto_first a b" "toExpiring env now a = Inr e" "toExpiring env now b = Inr f"
  shows "same_entry e f"
proof -
  from assms(2) obtain sa ra where a: "subscriptions a = sa # ra"
    by (cases "subscriptions a") (auto simp: toExpiring_def)
  from assms(3) obtain sb rb where b: "subscriptions b = sb # rb"
    by (cases "subscriptions b") (auto simp: toExpiring_def)
  from assms(1) a b have "sa = sb" by (simp add: same_upto_first_def first_subscription_def)
  with assms a b show ?thesis
    by (auto simp: toExpiring_def same_entry_def same_upto_first_def student_of_def
        student.truncate_def first_subscription_def Let_def)
qed

lemma passed_rel:
  assumes "list_all2 same_upto_first xs ys"
    and "list_all2 (passed env now thr) xs es" and "list_all2 (passed env now thr) ys fs"
  shows "list_all2 same_entry es fs"
proof -
  have len: "length es = length fs"
    using assms by (metis list_all2_lengthD)
  have "\<forall>i<length es. same_entry (es ! i) (fs ! i)"
  proof (intro allI impI)
    fix i assume i: "i < length es"
    then have "same_upto_first (xs ! i) (ys ! i)" "passed env now thr (xs ! i) (es ! i)"
      "passed env now thr (ys ! i) (fs ! i)"
      using assms len by (simp_all add: list_all2_conv_all_nth)
    then show "same_entry (es ! i) (fs ! i)"
      using toExpiring_same by (auto simp: passed_def)
  qed
  with len show ?thesis by (simp add: list_all2_conv_all_nth)
qed

lemma comes_first_same:
  "same_entry a b \<Longrightarrow> same_entry c d \<Longrightarrow>
   comes_first compareDaysLeft a c = comes_first compareDaysLeft b d"
  by (simp add: comes_first_def compareDaysLeft_def same_entry_def)

lemma insert_by_rel:
  "list_all2 same_entry xs ys \<Longrightarrow> same_entry x y \<Longrightarrow>
   list_all2 same_entry (insert_by compareDaysLeft x xs) (insert_by compareDaysLeft y ys)"
proof (induction rule: list_all2_induct)
  case Nil
  then show ?case by simp
next
  case (Cons a xs b ys)
  then show ?case using comes_first_same [of x y a b] by auto
qed

lemma sort_by_rel:
  "list_all2 same_entry xs ys \<Longrightarrow>
   list_all2 same_entry (sort_by compareDaysLeft xs) (sort_by compareDaysLeft ys)"
proof (induction rule: list_all2_induct)
  case Nil
  then show ?case by (simp add: sort_by_def)
next
  case (Cons a xs b ys)
  then show ?case using insert_by_rel by (simp add: sort_by_def)
qed

lemma isExpiring_rest:
  "isExpiring env now thr (st\<lparr>subscriptions := sub # rest\<rparr>)
     = isExpiring env now thr (st\<lparr>subscriptions := [sub]\<rparr>)"
  by (simp add: isExpiring_def)

text \<open>
  C9, as stated, fails: the student with one subscription and the same student with a
  second subscription after it agree on the identity fields and on the first
  subscription, and the derived lists differ, since an entry carries the whole
  subscriptions array of its student.
\<close>

theorem first_subscription_only_counterexample:
  "list_all2 same_upto_first [single_student] [double_student]
   \<and> expiringStudents (demo_platform demo_now) demo_now demo_now 7 [single_student]
       \<noteq> expiringStudents (demo_platform demo_now) demo_now demo_now 7 [double_student]"
proof -
  have "list_all2 same_upto_first [single_student] [double_student]"
    by (simp add: same_upto_first_def first_subscription_def single_student_def
        double_student_def demo_student_def)
  moreover have "expiringStudents (demo_platform demo_now) demo_now demo_now 7 [single_student]
       \<noteq> expiringStudents (demo_platform demo_now) demo_now demo_now 7 [double_student]"
    by (simp add: expiringStudents_def demo_eval)
       (simp add: expiry_eval single_student_def double_student_def demo_now_def)
  ultimately show ?thesis by blast
qed

text \<open>
  C9, amended. For two input lists that agree, student by student, on the identity fields
  and on the first subscription, the derived lists have the same length and agree, entry
  by entry, on the identity fields, on the first subscription, on days left and on the
  end date; they can differ only in the subscriptions after the first that the entries
  carry along. The filter does not read a subscription after the first.
\<close>

theorem first_subscription_only:
  "(list_all2 same_upto_first xs ys \<longrightarrow>
      (\<exists>es fs. expiringStudents env now now2 daysThreshold xs = Inr es
         \<and> expiringStudents env now now2 daysThreshold ys = Inr fs
         \<and> list_all2 same_entry es fs))
   \<and> isExpiring env now thr (st\<lparr>subscriptions := sub # rest\<rparr>)
       = isExpiring env now thr (st\<lparr>subscriptions := [sub]\<rparr>)"
proof -
  let ?thr = "setDate env now2 (getDate env now + daysThreshold)"
  let ?P = "isExpiring env now ?thr"
  have "\<exists>es fs. expiringStudents env now now2 daysThreshold xs = Inr es
         \<and> expiringStudents env now now2 daysThreshold ys = Inr fs
         \<and> list_all2 same_entry es fs" if rel: "list_all2 same_upto_first xs ys"
  proof -
    from expiringStudents_shape [of env now now2 daysThreshold xs] obtain es0
      where es: "expiringStudents env now now2 daysThreshold xs
                   = Inr (sort_by compareDaysLeft es0)"
        and es0: "list_all2 (passed env now ?thr) (filter ?P xs) es0" by blast
    from expiringStudents_shape [of env now now2 daysThreshold ys] obtain fs0
      where fs: "expiringStudents env now now2 daysThreshold ys
                   = Inr (sort_by compareDaysLeft fs0)"
        and fs0: "list_all2 (passed env now ?thr) (filter ?P ys) fs0" by blast
    have "list_all2 same_upto_first (filter ?P xs) (filter ?P ys)"
      using rel isExpiring_same by (rule filter_rel)
    from passed_rel [OF this es0 fs0] have "list_all2 same_entry es0 fs0" .
    then have "list_all2 same_entry (sort_by compareDaysLeft es0) (sort_by compareDaysLeft fs0)"
      by (rule sort_by_rel)
    with es fs show ?thesis by blast
  qed
  then show ?thesis using isExpiring_rest by blast
qed

theorem first_subscription_only_witness:
  "list_all2 same_upto_first [single_student] [double_student]
   \<and> (\<exists>es fs. expiringStudents (demo_platform demo_now) demo_now demo_now 7 [single_student]
                = Inr es
         \<and> expiringStudents (demo_platform demo_now) demo_now demo_now 7 [double_student]
                = Inr fs
         \<and> list_all2 same_entry es fs)
   \<and> expiringStudents (demo_platform demo_now) demo_now demo_now 7 [lapsed_student] = Inr []"
proof -
  have rel: "list_all2 same_upto_first [single_student] [double_student]"
    by (simp add: same_upto_first_def first_subscription_def single_student_def
        double_student_def demo_student_def)
  have "expiringStudents (demo_platform demo_now) demo_now demo_now 7 [lapsed_student] = Inr []"
    by (simp add: expiringStudents_def demo_eval)
       (simp add: expiry_eval lapsed_student_def demo_now_def)
  with rel first_subscription_only [of "[single_student]" "[double_student]"
      "demo_platform demo_now" demo_now demo_now 7]
  show ?thesis by blast
qed

section \<open>Properties of the speech session\<close>

lemmas step_defs = speak_def timeout_callback_def on_end_def on_error_def
  interval_callback_def stop_def loadVoices_def new_call_def Let_def

subsection \<open>Promises\<close>

lemma resolve_not_Rejected: "p \<noteq> Rejected \<Longrightarrow> resolve p \<noteq> Rejected"
  by (simp add: resolve_def)

lemma resolve_Resolved: "p \<noteq> Rejected \<Longrightarrow> resolve p = Resolved"
  by (cases p) (simp_all add: resolve_def)

lemma set_update_cases: "x \<in> set (xs[i := v]) \<Longrightarrow> x = v \<or> x \<in> set xs"
  using set_update_subset_insert by fastforce

lemma no_rejection_step: "no_rejection s \<Longrightarrow> no_rejection (step e s)"
proof (cases e)
  case (Speak opts)
  assume "no_rejection s"
  with Speak show ?thesis by (auto simp: no_rejection_def step_defs resolve_def)
next
  case (Timeout i tp pv)
  assume a: "no_rejection s"
  show ?thesis
  proof (cases "i < length (calls s) \<and> phase (calls s ! i) = Scheduled")
    case True
    then have "promise (calls s ! i) \<noteq> Rejected" using a by (simp add: no_rejection_def)
    with a Timeout True show ?thesis
      by (cases tp) (auto simp: no_rejection_def step_defs resolve_def dest!: set_update_cases)
  next
    case False
    with a Timeout show ?thesis by auto
  qed
next
  case (OnStart i)
  assume "no_rejection s"
  with OnStart show ?thesis by (auto simp: no_rejection_def)
next
  case (OnEnd i)
  assume a: "no_rejection s"
  show ?thesis
  proof (cases "i < length (calls s) \<and> phase (calls s ! i) = Live")
    case True
    then have "promise (calls s ! i) \<noteq> Rejected" using a by (simp add: no_rejection_def)
    with a OnEnd True show ?thesis
      by (auto simp: no_rejection_def step_defs resolve_def dest!: set_update_cases)
  next
    case False
    with a OnEnd show ?thesis by auto
  qed
next
  case (OnError i)
  assume a: "no_rejection s"
  show ?thesis
  proof (cases "i < length (calls s) \<and> phase (calls s ! i) = Live")
    case True
    then have "promise (calls s ! i) \<noteq> Rejected" using a by (simp add: no_rejection_def)
    with a OnError True show ?thesis
      by (auto simp: no_rejection_def step_defs resolve_def dest!: set_update_cases)
  next
    case False
    with a OnError show ?thesis by auto
  qed
next
  case (Tick i speaking)
  assume a: "no_rejection s"
  show ?thesis
  proof (cases "i < length (calls s) \<and> resumeInterval (calls s ! i)")
    case True
    then have "promise (calls s ! i) \<noteq> Rejected" using a by (simp add: no_rejection_def)
    with a Tick True show ?thesis
      by (auto simp: no_rejection_def step_defs dest!: set_update_cases)
  next
    case False
    with a Tick show ?thesis by auto
  qed
next
  case Stop
  assume "no_rejection s"
  with Stop show ?thesis by (auto simp: no_rejection_def step_defs)
next
  case (VoicesChanged vs)
  assume "no_rejection s"
  with VoicesChanged show ?thesis by (auto simp: no_rejection_def step_defs)
qed

lemma no_rejection_run: "no_rejection s \<Longrightarrow> no_rejection (run evs s)"
  by (induction evs arbitrary: s) (auto simp: no_rejection_step)

lemma no_rejection_mount: "no_rejection (mount supported voices)"
  by (simp add: no_rejection_def mount_def)

lemma no_rejection_promise_at: "no_rejection s \<Longrightarrow> promise_at s i \<noteq> Rejected"
  by (simp add: no_rejection_def promise_at_def)

text \<open>A resolved promise stays resolved.\<close>

lemma Resolved_step: "promise_at s i = Resolved \<Longrightarrow> promise_at (step e s) i = Resolved"
proof (cases e)
  case (Timeout j tp pv)
  assume "promise_at s i = Resolved"
  with Timeout show ?thesis
    by (cases tp) (auto simp: promise_at_def step_defs resolve_def nth_list_update split: if_splits)
qed (auto simp: promise_at_def step_defs resolve_def nth_list_update nth_append split: if_splits)

lemma Resolved_run: "promise_at s i = Resolved \<Longrightarrow> promise_at (run evs s) i = Resolved"
  by (induction evs arbitrary: s) (auto simp: Resolved_step)

subsection \<open>The keep-alive interval\<close>

lemma interval_cleared_step: "interval_cleared i n s \<Longrightarrow> interval_cleared i n (step e s)"
proof (cases e)
  case (Timeout j tp pv)
  assume "interval_cleared i n s"
  with Timeout show ?thesis
    by (cases tp) (auto simp: interval_cleared_def step_defs nth_list_update)
qed (auto simp: interval_cleared_def step_defs nth_list_update nth_append)

lemma interval_cleared_run: "interval_cleared i n s \<Longrightarrow> interval_cleared i n (run evs s)"
  by (induction evs arbitrary: s) (auto simp: interval_cleared_step)

lemma report_clears:
  assumes "i < length (calls s)" "phase (calls s ! i) = Live"
    and "e \<in> {OnEnd i, OnError i, Tick i False}"
  shows "interval_cleared i (pauseResumes (calls s ! i)) (step e s)"
  using assms by (auto simp: interval_cleared_def step_defs split: if_splits)

subsection \<open>Speaking\<close>

lemma idle_if_unsupported_step: "idle_if_unsupported s \<Longrightarrow> idle_if_unsupported (step e s)"
proof (cases e)
  case (Timeout j tp pv)
  assume "idle_if_unsupported s"
  with Timeout show ?thesis
    by (cases tp) (auto simp: idle_if_unsupported_def step_defs dest!: set_update_cases)
next
  case (Tick j sp)
  assume "idle_if_unsupported s"
  with Tick show ?thesis
    by (auto simp: idle_if_unsupported_def step_defs dest!: set_update_cases)
next
  case (OnEnd j)
  assume "idle_if_unsupported s"
  with OnEnd show ?thesis
    by (auto simp: idle_if_unsupported_def step_defs dest!: set_update_cases)
next
  case (OnError j)
  assume "idle_if_unsupported s"
  with OnError show ?thesis
    by (auto simp: idle_if_unsupported_def step_defs dest!: set_update_cases)
qed (auto simp: idle_if_unsupported_def step_defs)

lemma idle_if_unsupported_run: "idle_if_unsupported s \<Longrightarrow> idle_if_unsupported (run evs s)"
  by (induction evs arbitrary: s) (auto simp: idle_if_unsupported_step)

lemma idle_if_unsupported_mount: "idle_if_unsupported (mount supported voices)"
  by (simp add: idle_if_unsupported_def mount_def)

lemma resolving_step_silences:
  assumes "idle_if_unsupported s" and "resolves_at e s i" and "\<not> empty_exit e s"
  shows "\<not> isSpeaking (step e s)"
  using assms
  by (cases e)
     (auto simp: resolves_at_def promise_at_def empty_exit_def idle_if_unsupported_def
        step_defs nth_list_update nth_append split: if_splits throw_point.splits)

lemma empty_exit_keeps_flag: "empty_exit e s \<Longrightarrow> isSpeaking (step e s) = isSpeaking s"
  by (cases e) (auto simp: empty_exit_def step_defs)

subsection \<open>A session that is speaking\<close>

lemma speak_Hello:
  "speak (say (ascii ''Hello'')) (mount True []) =
     \<lparr>isSupported = True, isSpeaking = False, availableVoices = [], utteranceRef = None,
      calls = [new_call (say (ascii ''Hello'')) [] (ascii ''Hello'') Pending Scheduled],
      cancels = 1\<rparr>"
  by (simp add: speak_def mount_def say_def sanitize_Hello Let_def) (simp add: ascii_def)

lemma speaking_session_eq:
  "speaking_session =
     \<lparr>isSupported = True, isSpeaking = True, availableVoices = [], utteranceRef = Some 0,
      calls = [\<lparr>options = say (ascii ''Hello''), capturedVoices = [],
                cleanText = ascii ''Hello'',
                promise = Pending, phase = Live,
                call_utterance = Some (buildUtterance (ascii ''Hello'') None (9 / 10) 1 1),
                resumeInterval = True, pauseResumes = 0\<rparr>],
      cancels = 1\<rparr>"
  by (simp add: speaking_session_def speak_Hello)
     (simp add: timeout_callback_def new_call_def say_def getBestVoice_def currentVoices_def
        option_or_def)

subsection \<open>The promise of speak\<close>

text \<open>
  C3. In every session reached from the mount by any events, no promise of a call of
  \<open>speak\<close> is rejected, whatever the options of the call. The call on a platform without
  speech synthesis and the call whose sanitized text is empty return a resolved promise;
  the error event of the engine (and its end event) resolves the promise of its call; an
  exception thrown in the timeout callback, in the constructor of the utterance or
  after it, resolves the promise; and a resolved promise stays resolved.
\<close>

theorem speak_always_resolves:
  fixes evs :: "event list" and supported :: bool and voices :: "voice list"
  defines "s \<equiv> run evs (mount supported voices)"
  shows
  "promise_at s i \<noteq> Rejected
   \<and> (\<not> isSupported s \<longrightarrow> promise_at (step (Speak opts) s) (length (calls s)) = Resolved)
   \<and> (isSupported s \<and> sanitizeText (opt_text opts) = [] \<longrightarrow>
        promise_at (step (Speak opts) s) (length (calls s)) = Resolved)
   \<and> (i < length (calls s) \<and> phase (calls s ! i) = Live \<longrightarrow>
        promise_at (step (OnError i) s) i = Resolved
        \<and> promise_at (step (OnEnd i) s) i = Resolved)
   \<and> (i < length (calls s) \<and> phase (calls s ! i) = Scheduled \<and> tp \<noteq> NoThrow \<longrightarrow>
        promise_at (step (Timeout i tp pv) s) i = Resolved)
   \<and> (promise_at s i = Resolved \<longrightarrow> promise_at (run later s) i = Resolved)"
proof -
  have nr: "no_rejection s"
    unfolding s_def by (rule no_rejection_run [OF no_rejection_mount])
  then have 1: "promise_at s i \<noteq> Rejected" by (rule no_rejection_promise_at)
  have 2: "\<not> isSupported s \<longrightarrow> promise_at (step (Speak opts) s) (length (calls s)) = Resolved"
    by (simp add: promise_at_def speak_def new_call_def resolve_def)
  have 3: "isSupported s \<and> sanitizeText (opt_text opts) = [] \<longrightarrow>
        promise_at (step (Speak opts) s) (length (calls s)) = Resolved"
    by (simp add: promise_at_def speak_def new_call_def resolve_def)
  have 4: "i < length (calls s) \<and> phase (calls s ! i) = Live \<longrightarrow>
        promise_at (step (OnError i) s) i = Resolved
        \<and> promise_at (step (OnEnd i) s) i = Resolved"
    using 1 by (auto simp: promise_at_def on_error_def on_end_def Let_def resolve_Resolved)
  have 5: "i < length (calls s) \<and> phase (calls s ! i) = Scheduled \<and> tp \<noteq> NoThrow \<longrightarrow>
        promise_at (step (Timeout i tp pv) s) i = Resolved"
    using 1 by (cases tp) (auto simp: promise_at_def timeout_callback_def Let_def resolve_Resolved)
  have 6: "promise_at s i = Resolved \<longrightarrow> promise_at (run later s) i = Resolved"
    by (simp add: Resolved_run)
  from 1 2 3 4 5 6 show ?thesis by blast
qed

theorem speak_always_resolves_witness:
  "promise_at (step (Speak (say (ascii ''Hello''))) (mount False [])) 0 = Resolved
   \<and> promise_at (step (Speak (say (ascii '' ''))) (mount True [])) 0 = Resolved
   \<and> promise_at (step (OnError 0) speaking_session) 0 = Resolved
   \<and> promise_at (step (OnEnd 0) speaking_session) 0 = Resolved
   \<and> promise_at (step (Timeout 0 ThrowAfterNew [])
                   (run [Speak (say (ascii ''Hello''))] (mount True []))) 0 = Resolved
   \<and> promise_at (run [Tick 0 True, Stop]
                   (run [Speak (say (ascii ''Hello''))] (mount False []))) 0 = Resolved"
proof -
  have 1: "promise_at (step (Speak (say (ascii ''Hello''))) (mount False [])) 0 = Resolved"
    using speak_always_resolves [where evs = "[]" and supported = False and voices = "[]"
        and opts = "say (ascii ''Hello'')" and i = 0 and tp = NoThrow and pv = "[]"
        and later = "[]"]
    by (simp add: mount_def)
  have 2: "promise_at (step (Speak (say (ascii '' ''))) (mount True [])) 0 = Resolved"
    using speak_always_resolves [where evs = "[]" and supported = True and voices = "[]"
        and opts = "say (ascii '' '')" and i = 0 and tp = NoThrow and pv = "[]"
        and later = "[]"]
    by (simp add: mount_def say_def sanitize_blank)
  have 3: "promise_at (step (OnError 0) speaking_session) 0 = Resolved
           \<and> promise_at (step (OnEnd 0) speaking_session) 0 = Resolved"
    using speak_always_resolves [where supported = True and voices = "[]" and i = 0
        and evs = "[Speak (say (ascii ''Hello'')), Timeout 0 NoThrow [], OnStart 0]"
        and opts = "say []" and tp = NoThrow and pv = "[]" and later = "[]",
        folded speaking_session_def]
    by (simp add: speaking_session_eq)
  have 4: "promise_at (step (Timeout 0 ThrowAfterNew [])
                   (run [Speak (say (ascii ''Hello''))] (mount True []))) 0 = Resolved"
    using speak_always_resolves [where supported = True and voices = "[]" and i = 0
        and evs = "[Speak (say (ascii ''Hello''))]" and tp = ThrowAfterNew and pv = "[]"
        and opts = "say []" and later = "[]"]
    by (simp add: speak_Hello new_call_def)
  have 5: "promise_at (run [Tick 0 True, Stop]
                   (run [Speak (say (ascii ''Hello''))] (mount False []))) 0 = Resolved"
    using speak_always_resolves [where supported = False and voices = "[]" and i = 0
        and evs = "[Speak (say (ascii ''Hello''))]" and tp = NoThrow and pv = "[]"
        and opts = "say []" and later = "[Tick 0 True, Stop]"] 1
    by simp
  from 1 2 3 4 5 show ?thesis by blast
qed

subsection \<open>The speaking flag when a promise resolves\<close>

text \<open>
  C6, as stated, fails: while an utterance is being spoken, a call of \<open>speak\<close> whose
  sanitized text is empty resolves its promise at once and leaves the speaking flag set.
\<close>

theorem speaking_cleared_on_resolve_counterexample:
  "resolves_at (Speak (say [])) speaking_session 1
   \<and> isSpeaking (step (Speak (say [])) speaking_session)"
  by (simp add: resolves_at_def promise_at_def speaking_session_eq speak_def say_def
      sanitize_empty new_call_def resolve_def)

text \<open>
  C6, amended. In every session reached from the mount, when an event resolves the
  promise of a call of \<open>speak\<close> and the event is not the early exit for empty sanitized
  text (so it is the end or the error of the utterance, an exception caught in the
  timeout callback, or the call on a platform without speech synthesis), the speaking
  flag is false after the event. The early exit for empty text resolves the promise of
  the new call and leaves the flag as it was.
\<close>

theorem speaking_cleared_on_resolve:
  fixes evs :: "event list" and supported :: bool and voices :: "voice list"
  defines "s \<equiv> run evs (mount supported voices)"
  shows
  "(resolves_at e s i \<and> \<not> empty_exit e s \<longrightarrow> \<not> isSpeaking (step e s))
   \<and> (empty_exit e s \<longrightarrow>
        resolves_at e s (length (calls s)) \<and> isSpeaking (step e s) = isSpeaking s)"
proof -
  have "idle_if_unsupported s"
    unfolding s_def by (rule idle_if_unsupported_run [OF idle_if_unsupported_mount])
  then have 1: "resolves_at e s i \<and> \<not> empty_exit e s \<longrightarrow> \<not> isSpeaking (step e s)"
    using resolving_step_silences by blast
  have 2: "empty_exit e s \<longrightarrow>
        resolves_at e s (length (calls s)) \<and> isSpeaking (step e s) = isSpeaking s"
    by (cases e)
       (auto simp: empty_exit_def resolves_at_def promise_at_def speak_def new_call_def
          resolve_def)
  from 1 2 show ?thesis by blast
qed

theorem speaking_cleared_on_resolve_witness:
  "resolves_at (OnEnd 0) speaking_session 0
   \<and> isSpeaking speaking_session
   \<and> \<not> isSpeaking (step (OnEnd 0) speaking_session)
   \<and> resolves_at (Timeout 0 ThrowAtNew [])
        (run [Speak (say (ascii ''Hello''))] (mount True [])) 0
   \<and> \<not> isSpeaking (step (Timeout 0 ThrowAtNew [])
                       (run [Speak (say (ascii ''Hello''))] (mount True [])))
   \<and> resolves_at (Speak (say (ascii ''Hello''))) (run [] (mount False [])) 0
   \<and> \<not> isSpeaking (step (Speak (say (ascii ''Hello''))) (run [] (mount False [])))
   \<and> empty_exit (Speak (say [])) speaking_session
   \<and> isSpeaking (step (Speak (say [])) speaking_session) = isSpeaking speaking_session"
proof -
  have a: "resolves_at (OnEnd 0) speaking_session 0" "isSpeaking speaking_session"
    "\<not> empty_exit (OnEnd 0) speaking_session"
    by (simp_all add: resolves_at_def promise_at_def speaking_session_eq on_end_def
        resolve_def empty_exit_def)
  with speaking_cleared_on_resolve [where supported = True and voices = "[]" and i = 0
      and evs = "[Speak (say (ascii ''Hello'')), Timeout 0 NoThrow [], OnStart 0]"
      and e = "OnEnd 0", folded speaking_session_def]
  have 1: "\<not> isSpeaking (step (OnEnd 0) speaking_session)" by blast
  have b: "resolves_at (Timeout 0 ThrowAtNew [])
        (run [Speak (say (ascii ''Hello''))] (mount True [])) 0"
    "\<not> empty_exit (Timeout 0 ThrowAtNew []) (run [Speak (say (ascii ''Hello''))] (mount True []))"
    by (simp_all add: resolves_at_def promise_at_def speak_Hello timeout_callback_def
        new_call_def resolve_def empty_exit_def)
  with speaking_cleared_on_resolve [where supported = True and voices = "[]" and i = 0
      and evs = "[Speak (say (ascii ''Hello''))]" and e = "Timeout 0 ThrowAtNew []"]
  have 2: "\<not> isSpeaking (step (Timeout 0 ThrowAtNew [])
                       (run [Speak (say (ascii ''Hello''))] (mount True [])))" by blast
  have c: "resolves_at (Speak (say (ascii ''Hello''))) (run [] (mount False [])) 0"
    "\<not> empty_exit (Speak (say (ascii ''Hello''))) (run [] (mount False []))"
    by (simp_all add: resolves_at_def promise_at_def mount_def speak_def new_call_def
        resolve_def empty_exit_def)
  with speaking_cleared_on_resolve [where supported = False and voices = "[]" and i = 0
      and evs = "[]" and e = "Speak (say (ascii ''Hello''))"]
  have 3: "\<not> isSpeaking (step (Speak (say (ascii ''Hello''))) (run [] (mount False [])))"
    by blast
  have d: "empty_exit (Speak (say [])) speaking_session"
    by (simp add: empty_exit_def speaking_session_eq say_def sanitize_empty)
  with speaking_cleared_on_resolve [where supported = True and voices = "[]" and i = 0
      and evs = "[Speak (say (ascii ''Hello'')), Timeout 0 NoThrow [], OnStart 0]"
      and e = "Speak (say [])", folded speaking_session_def]
  have 4: "isSpeaking (step (Speak (say [])) speaking_session) = isSpeaking speaking_session"
    by blast
  from a 1 b 2 c 3 d 4 show ?thesis by blast
qed

subsection \<open>The keep-alive timer\<close>

text \<open>
  C7. For a call whose utterance is with the engine: once the end event or the error
  event of the utterance has run, or the periodic check has read the engine as not
  speaking, the interval of the call is cleared and stays cleared whatever events
  follow, and the interval issues no further pause and resume.
\<close>

theorem keep_alive_cleared:
  assumes "i < length (calls s)" and "phase (calls s ! i) = Live"
    and "e \<in> {OnEnd i, OnError i, Tick i False}"
  shows "\<not> resumeInterval (calls (run evs (step e s)) ! i)
       \<and> pauseResumes (calls (run evs (step e s)) ! i) = pauseResumes (calls s ! i)"
  using interval_cleared_run [OF report_clears [OF assms], of evs]
  by (simp add: interval_cleared_def)

theorem keep_alive_cleared_witness:
  "resumeInterval (calls (step (Tick 0 True) speaking_session) ! 0)
   \<and> pauseResumes (calls (step (Tick 0 True) speaking_session) ! 0) = 1
   \<and> \<not> resumeInterval (calls (run [Tick 0 True, OnStart 0, Tick 0 True]
                            (step (OnEnd 0) (step (Tick 0 True) speaking_session))) ! 0)
   \<and> pauseResumes (calls (run [Tick 0 True, OnStart 0, Tick 0 True]
                            (step (OnEnd 0) (step (Tick 0 True) speaking_session))) ! 0) = 1
   \<and> \<not> resumeInterval (calls (run [Tick 0 True, Tick 0 True]
                            (step (Tick 0 False) (step (Tick 0 True) speaking_session))) ! 0)
   \<and> pauseResumes (calls (run [Tick 0 True, Tick 0 True]
                            (step (Tick 0 False) (step (Tick 0 True) speaking_session))) ! 0) = 1"
proof -
  let ?s = "step (Tick 0 True) speaking_session"
  have s: "0 < length (calls ?s)" "phase (calls ?s ! 0) = Live"
    "resumeInterval (calls ?s ! 0)" "pauseResumes (calls ?s ! 0) = 1"
    by (simp_all add: speaking_session_eq interval_callback_def)
  have e1: "OnEnd 0 \<in> {OnEnd 0, OnError 0, Tick 0 False}" by simp
  have e2: "Tick 0 False \<in> {OnEnd 0, OnError 0, Tick 0 False}" by simp
  from keep_alive_cleared [OF s(1) s(2) e1, of "[Tick 0 True, OnStart 0, Tick 0 True]"]
    keep_alive_cleared [OF s(1) s(2) e2, of "[Tick 0 True, Tick 0 True]"] s(3) s(4)
  show ?thesis by metis
qed

section \<open>Properties of the voice selection and of the voice label\<close>

lemma find_first:
  assumes "\<exists>v\<in>set vs. P v"
  shows "\<exists>i<length vs. find P vs = Some (vs ! i) \<and> P (vs ! i) \<and> (\<forall>j<i. \<not> P (vs ! j))"
proof -
  from assms obtain x where "find P vs = Some x"
    by (cases "find P vs") (auto simp: find_None_iff)
  then show ?thesis by (auto simp: find_Some_iff)
qed

lemmas voice_defs = v_enUS_def v_enIN_def v_hiIN_def v_enGB_def v_frCA_def ascii_def

lemma getBestVoice_None: "getBestVoice av pv = None \<longleftrightarrow> av = [] \<and> pv = []"
proof (cases "currentVoices av pv")
  case Nil
  then show ?thesis by (auto simp: getBestVoice_def currentVoices_def split: if_splits)
next
  case (Cons v vs)
  then have "getBestVoice av pv \<noteq> None"
    by (simp add: getBestVoice_def Let_def split: option.splits)
  moreover from Cons have "\<not> (av = [] \<and> pv = [])" by (auto simp: currentVoices_def)
  ultimately show ?thesis by blast
qed

text \<open>The cache of voices is never emptied, so a call never holds voices the cache lost.\<close>

lemma voices_kept_step: "voices_kept s \<Longrightarrow> voices_kept (step e s)"
  by (cases e)
     (auto simp: voices_kept_def step_defs split: if_splits throw_point.splits
        dest!: set_update_cases)

lemma voices_kept_run: "voices_kept s \<Longrightarrow> voices_kept (run evs s)"
  by (induction evs arbitrary: s) (auto simp: voices_kept_step)

lemma voices_kept_mount: "voices_kept (mount supported voices)"
  by (simp add: voices_kept_def mount_def)

text \<open>
  C2. \<open>getBestVoice\<close> returns the first voice tagged exactly \<open>hi-IN\<close>; if there is none,
  the first tagged exactly \<open>en-IN\<close>; if there is none, the first whose tag starts with
  \<open>en\<close>; if there is none, the first voice of the list; and nothing when the list is
  empty. With no voice, the utterance that \<open>speak\<close> hands to the engine has no voice
  bound and carries the language tag \<open>hi-IN\<close>: this holds for the list the call has kept
  from its render and, in every session reached from the mount, for the list the session
  holds when the timeout runs.
\<close>

theorem getBestVoice_priority:
  fixes av pv :: "voice list"
  defines "vs \<equiv> currentVoices av pv"
  defines "r \<equiv> getBestVoice av pv"
  shows
  "((\<exists>v\<in>set vs. lang v = ascii ''hi-IN'') \<longrightarrow>
      (\<exists>i<length vs. r = Some (vs ! i) \<and> lang (vs ! i) = ascii ''hi-IN''
         \<and> (\<forall>j<i. lang (vs ! j) \<noteq> ascii ''hi-IN'')))
   \<and> ((\<forall>v\<in>set vs. lang v \<noteq> ascii ''hi-IN'') \<and> (\<exists>v\<in>set vs. lang v = ascii ''en-IN'') \<longrightarrow>
      (\<exists>i<length vs. r = Some (vs ! i) \<and> lang (vs ! i) = ascii ''en-IN''
         \<and> (\<forall>j<i. lang (vs ! j) \<noteq> ascii ''en-IN'')))
   \<and> ((\<forall>v\<in>set vs. lang v \<noteq> ascii ''hi-IN'' \<and> lang v \<noteq> ascii ''en-IN'')
       \<and> (\<exists>v\<in>set vs. startsWith (lang v) (ascii ''en'')) \<longrightarrow>
      (\<exists>i<length vs. r = Some (vs ! i) \<and> startsWith (lang (vs ! i)) (ascii ''en'')
         \<and> (\<forall>j<i. \<not> startsWith (lang (vs ! j)) (ascii ''en''))))
   \<and> ((\<forall>v\<in>set vs. lang v \<noteq> ascii ''hi-IN'' \<and> lang v \<noteq> ascii ''en-IN''
                   \<and> \<not> startsWith (lang v) (ascii ''en'')) \<and> vs \<noteq> [] \<longrightarrow>
      r = Some (vs ! 0))
   \<and> (vs = [] \<longrightarrow> r = None)
   \<and> (r = None \<and> i < length (calls s) \<and> phase (calls s ! i) = Scheduled
        \<and> capturedVoices (calls s ! i) = av \<longrightarrow>
        (\<exists>u. call_utterance (calls (step (Timeout i NoThrow pv) s) ! i) = Some u
           \<and> utt_voice u = None \<and> utt_lang u = ascii ''hi-IN''))
   \<and> (r = None \<and> s = run evs (mount supported voices) \<and> i < length (calls s)
        \<and> phase (calls s ! i) = Scheduled \<and> availableVoices s = av \<longrightarrow>
        (\<exists>u. call_utterance (calls (step (Timeout i NoThrow pv) s) ! i) = Some u
           \<and> utt_voice u = None \<and> utt_lang u = ascii ''hi-IN''))
   \<and> getBestVoice [v_enUS, v_enIN, v_hiIN] [] = Some v_hiIN
   \<and> getBestVoice [v_enUS, v_enGB] [] = Some v_enUS
   \<and> getBestVoice [] [] = None"
proof -
  let ?hi = "\<lambda>v. lang v = ascii ''hi-IN''"
  let ?in = "\<lambda>v. lang v = ascii ''en-IN''"
  let ?en = "\<lambda>v. startsWith (lang v) (ascii ''en'')"
  have r: "r = (if vs = [] then None
               else case find ?hi vs of Some a \<Rightarrow> Some a
                 | None \<Rightarrow> (case find ?in vs of Some a \<Rightarrow> Some a
                   | None \<Rightarrow> (case find ?en vs of Some a \<Rightarrow> Some a
                     | None \<Rightarrow> (case vs of [] \<Rightarrow> None | v # _ \<Rightarrow> Some v))))"
    unfolding r_def vs_def getBestVoice_def Let_def by simp
  have c1: "(\<exists>v\<in>set vs. ?hi v) \<longrightarrow>
      (\<exists>i<length vs. r = Some (vs ! i) \<and> ?hi (vs ! i) \<and> (\<forall>j<i. \<not> ?hi (vs ! j)))"
  proof
    assume a: "\<exists>v\<in>set vs. ?hi v"
    then have "vs \<noteq> []" by auto
    with find_first [OF a]
    show "\<exists>i<length vs. r = Some (vs ! i) \<and> ?hi (vs ! i) \<and> (\<forall>j<i. \<not> ?hi (vs ! j))"
      by (auto simp: r)
  qed
  have c2: "(\<forall>v\<in>set vs. \<not> ?hi v) \<and> (\<exists>v\<in>set vs. ?in v) \<longrightarrow>
      (\<exists>i<length vs. r = Some (vs ! i) \<and> ?in (vs ! i) \<and> (\<forall>j<i. \<not> ?in (vs ! j)))"
  proof
    assume a: "(\<forall>v\<in>set vs. \<not> ?hi v) \<and> (\<exists>v\<in>set vs. ?in v)"
    then have ne: "vs \<noteq> []" and h: "find ?hi vs = None" by (auto simp: find_None_iff)
    from a have "\<exists>v\<in>set vs. ?in v" by simp
    from find_first [OF this] ne h
    show "\<exists>i<length vs. r = Some (vs ! i) \<and> ?in (vs ! i) \<and> (\<forall>j<i. \<not> ?in (vs ! j))"
      by (auto simp: r)
  qed
  have c3: "(\<forall>v\<in>set vs. \<not> ?hi v \<and> \<not> ?in v) \<and> (\<exists>v\<in>set vs. ?en v) \<longrightarrow>
      (\<exists>i<length vs. r = Some (vs ! i) \<and> ?en (vs ! i) \<and> (\<forall>j<i. \<not> ?en (vs ! j)))"
  proof
    assume a: "(\<forall>v\<in>set vs. \<not> ?hi v \<and> \<not> ?in v) \<and> (\<exists>v\<in>set vs. ?en v)"
    then have ne: "vs \<noteq> []" and h: "find ?hi vs = None" "find ?in vs = None"
      by (auto simp: find_None_iff)
    from a have "\<exists>v\<in>set vs. ?en v" by simp
    from find_first [OF this] ne h
    show "\<exists>i<length vs. r = Some (vs ! i) \<and> ?en (vs ! i) \<and> (\<forall>j<i. \<not> ?en (vs ! j))"
      by (auto simp: r)
  qed
  have c4: "(\<forall>v\<in>set vs. \<not> ?hi v \<and> \<not> ?in v \<and> \<not> ?en v) \<and> vs \<noteq> [] \<longrightarrow> r = Some (vs ! 0)"
  proof
    assume a: "(\<forall>v\<in>set vs. \<not> ?hi v \<and> \<not> ?in v \<and> \<not> ?en v) \<and> vs \<noteq> []"
    then have "find ?hi vs = None" "find ?in vs = None" "find ?en vs = None"
      by (auto simp: find_None_iff)
    with a show "r = Some (vs ! 0)" by (cases vs) (auto simp: r)
  qed
  have c5: "vs = [] \<longrightarrow> r = None" by (simp add: r)
  have c6: "r = None \<and> i < length (calls s) \<and> phase (calls s ! i) = Scheduled
        \<and> capturedVoices (calls s ! i) = av \<longrightarrow>
        (\<exists>u. call_utterance (calls (step (Timeout i NoThrow pv) s) ! i) = Some u
           \<and> utt_voice u = None \<and> utt_lang u = ascii ''hi-IN'')"
    by (simp add: r_def timeout_callback_def buildUtterance_def Let_def)
  have c7: "r = None \<and> s = run evs (mount supported voices) \<and> i < length (calls s)
        \<and> phase (calls s ! i) = Scheduled \<and> availableVoices s = av \<longrightarrow>
        (\<exists>u. call_utterance (calls (step (Timeout i NoThrow pv) s) ! i) = Some u
           \<and> utt_voice u = None \<and> utt_lang u = ascii ''hi-IN'')"
  proof (intro impI)
    assume a: "r = None \<and> s = run evs (mount supported voices) \<and> i < length (calls s)
        \<and> phase (calls s ! i) = Scheduled \<and> availableVoices s = av"
    then have "av = []" "pv = []" by (simp_all add: r_def getBestVoice_None)
    moreover have "voices_kept s" using a voices_kept_run voices_kept_mount by simp
    ultimately have "capturedVoices (calls s ! i) = []"
      using a by (auto simp: voices_kept_def)
    then have "getBestVoice (capturedVoices (calls s ! i)) pv = None"
      using \<open>pv = []\<close> by (simp add: getBestVoice_None)
    moreover from a have "i < length (calls s)" "phase (calls s ! i) = Scheduled" by blast+
    ultimately show "\<exists>u. call_utterance (calls (step (Timeout i NoThrow pv) s) ! i) = Some u
           \<and> utt_voice u = None \<and> utt_lang u = ascii ''hi-IN''"
      by (simp add: timeout_callback_def buildUtterance_def Let_def)
  qed
  have e1: "getBestVoice [v_enUS, v_enIN, v_hiIN] [] = Some v_hiIN"
    by (simp add: getBestVoice_def currentVoices_def voice_defs)
  have e2: "getBestVoice [v_enUS, v_enGB] [] = Some v_enUS"
    by (simp add: getBestVoice_def currentVoices_def voice_defs startsWith_def)
  have e3: "getBestVoice [] [] = None"
    by (simp add: getBestVoice_def currentVoices_def)
  from c1 c2 c3 c4 c5 c6 c7 e1 e2 e3 show ?thesis by blast
qed

theorem getBestVoice_priority_witness:
  "getBestVoice [v_enUS, v_enIN, v_hiIN] [v_frCA] = Some v_hiIN
   \<and> getBestVoice [] [v_enUS, v_enIN] = Some v_enIN
   \<and> getBestVoice [v_frCA, v_enGB, v_enUS] [] = Some v_enGB
   \<and> getBestVoice [] [v_frCA] = Some v_frCA
   \<and> getBestVoice [] [] = None
   \<and> (\<exists>u. call_utterance (calls (step (Timeout 0 NoThrow [])
                                   (run [Speak demo_options] (mount True []))) ! 0) = Some u
          \<and> utt_voice u = None \<and> utt_lang u = ascii ''hi-IN'')"
proof -
  note t = getBestVoice_priority [where i = 0 and evs = "[Speak demo_options]"
      and supported = True and voices = "[]"
      and s = "run [Speak demo_options] (mount True [])"]
  have 1: "getBestVoice [v_enUS, v_enIN, v_hiIN] [v_frCA] = Some v_hiIN"
    using t [of "[v_enUS, v_enIN, v_hiIN]" "[v_frCA]"]
    by (auto simp: currentVoices_def voice_defs less_Suc_eq nth_Cons')
  have 2: "getBestVoice [] [v_enUS, v_enIN] = Some v_enIN"
    using t [of "[]" "[v_enUS, v_enIN]"]
    by (auto simp: currentVoices_def voice_defs less_Suc_eq nth_Cons')
  have 3: "getBestVoice [v_frCA, v_enGB, v_enUS] [] = Some v_enGB"
    using t [of "[v_frCA, v_enGB, v_enUS]" "[]"]
    by (auto simp: currentVoices_def voice_defs startsWith_def less_Suc_eq nth_Cons')
  have 4: "getBestVoice [] [v_frCA] = Some v_frCA"
    using t [of "[]" "[v_frCA]"]
    by (auto simp: currentVoices_def voice_defs startsWith_def)
  have 5: "getBestVoice [] [] = None"
    using t [of "[]" "[]"] by (simp add: currentVoices_def)
  have s: "speak demo_options (mount True []) =
      \<lparr>isSupported = True, isSpeaking = False, availableVoices = [], utteranceRef = None,
       calls = [new_call demo_options [] (ascii ''Namaste'') Pending Scheduled], cancels = 1\<rparr>"
    by (simp add: speak_def mount_def demo_options_def sanitize_eval resolve_def Let_def)
  have 6: "\<exists>u. call_utterance (calls (step (Timeout 0 NoThrow [])
                                   (run [Speak demo_options] (mount True []))) ! 0) = Some u
          \<and> utt_voice u = None \<and> utt_lang u = ascii ''hi-IN''"
    using t [of "[]" "[]"] 5
    by (simp add: s new_call_def)
  from 1 2 3 4 5 6 show ?thesis by blast
qed






end
